theory Spec2Isabelle
  imports Main "HOL-Library.Word" "HOL-Library.AList" "HOL-Library.FSet"
    "HOL-Library.Char_ord" "HOL-Library.List_Lexorder" "HOL-Library.Multiset"
begin

section \<open>Bytes and exceptions\<close>

type_synonym byte = "8 word"
type_synonym bytes = "byte list"

text \<open>The exceptions that the modelled code raises, as values.\<close>

datatype error =
    KeyError
  | ValueError
  | AssertionError
  | OSError
  | StructError
  | FileNotFoundError

section \<open>The journal (\<open>Journal\<close>, \<open>JournalWriter\<close>)\<close>

definition COMMITMENT_SIZE :: nat where
  "COMMITMENT_SIZE = 32 + 4"

text \<open>
  \<open>Journal.__getitem__\<close> on the bytes that the journal file holds on disk:
  \<open>seek(idx * COMMITMENT_SIZE)\<close>, then \<open>read(COMMITMENT_SIZE)\<close>. Seeking to a
  negative offset raises \<open>OSError\<close>; a read past the end of the file is short.
  The reader is a \<open>Journal\<close> opened on the file: \<open>JournalWriter.__init__\<close> opens
  \<open>append_fd\<close> only, so a writer has no \<open>read_fd\<close> to read through.
\<close>

definition Journal_getitem :: "bytes \<Rightarrow> int \<Rightarrow> error + bytes" where
  "Journal_getitem file idx =
     (if idx * int COMMITMENT_SIZE < 0 then Inl OSError
      else let commitment = take COMMITMENT_SIZE (drop (nat (idx * int COMMITMENT_SIZE)) file)
           in if length commitment = COMMITMENT_SIZE then Inr commitment else Inl KeyError)"

text \<open>
  The handle \<open>append_fd\<close> of \<open>open(path, "ab")\<close>: a buffered writer in append mode.
  \<open>disk\<close> is what the file holds, \<open>pending\<close> what has been written through the
  handle and not flushed yet (every write here is at most 36 bytes, far below the
  buffer size). \<open>tell\<close> counts both.
\<close>

record append_fd =
  disk :: bytes
  pending :: bytes

definition fd_tell :: "append_fd \<Rightarrow> nat" where
  "fd_tell fd = length (disk fd) + length (pending fd)"

definition fd_write :: "append_fd \<Rightarrow> bytes \<Rightarrow> append_fd" where
  "fd_write fd b = fd\<lparr>pending := pending fd @ b\<rparr>"

definition fd_flush :: "append_fd \<Rightarrow> append_fd" where
  "fd_flush fd = \<lparr>disk = disk fd @ pending fd, pending = []\<rparr>"

text \<open>
  \<open>JournalWriter.__init__\<close>, from the bytes of the file at \<open>path\<close> (empty when the
  file is created): the padding is written and not flushed.
\<close>

definition JournalWriter_init :: "bytes \<Rightarrow> append_fd" where
  "JournalWriter_init file =
     (let append_fd = \<lparr>disk = file, pending = []\<rparr>;
          pos = fd_tell append_fd
      in if pos mod COMMITMENT_SIZE \<noteq> 0
         then fd_write append_fd (replicate (COMMITMENT_SIZE - pos mod COMMITMENT_SIZE) 0)
         else append_fd)"

text \<open>
  \<open>JournalWriter.submit\<close>: the exception raised, if any, and the handle afterwards.
  \<open>os.fsync\<close> changes nothing that the model sees.
\<close>

definition JournalWriter_submit :: "append_fd \<Rightarrow> bytes \<Rightarrow> error option \<times> append_fd" where
  "JournalWriter_submit fd commitment =
     (if length commitment \<noteq> COMMITMENT_SIZE then (Some ValueError, fd)
      else if fd_tell fd mod COMMITMENT_SIZE \<noteq> 0 then (Some AssertionError, fd)
      else (None, fd_flush (fd_write fd commitment)))"

text \<open>A writer's life: opened on a file, then any sequence of \<open>submit\<close> calls.\<close>

fun submit_all :: "append_fd \<Rightarrow> bytes list \<Rightarrow> append_fd" where
  "submit_all fd [] = fd"
| "submit_all fd (c # cs) = submit_all (snd (JournalWriter_submit fd c)) cs"

definition journal_after :: "bytes \<Rightarrow> bytes list \<Rightarrow> append_fd" where
  "journal_after file cs = submit_all (JournalWriter_init file) cs"

section \<open>Timestamps, as \<open>calendar.py\<close> uses the opentimestamps library\<close>

text \<open>
  The library is not part of the repository. This section gives its timestamps,
  \<open>nonce_timestamp\<close> and \<open>make_merkle_tree\<close> as far as \<open>calendar.py\<close> depends on
  them. The library refuses messages longer than 4096 bytes; the messages here are
  digests and digests with a few bytes added, and the limit is left out.

  The library's operations on a message: append bytes, prepend bytes, hash. The hash
  function is a parameter \<open>sha256\<close> of every definition that applies an operation.
\<close>

datatype Op = OpAppend bytes | OpPrepend bytes | OpSHA256

fun Op_call :: "(bytes \<Rightarrow> bytes) \<Rightarrow> Op \<Rightarrow> bytes \<Rightarrow> bytes" where
  "Op_call sha256 (OpAppend arg) m = m @ arg"
| "Op_call sha256 (OpPrepend arg) m = arg @ m"
| "Op_call sha256 OpSHA256 m = sha256 m"

datatype attestation = PendingAttestation bytes | BitcoinBlockHeaderAttestation nat

text \<open>
  A \<open>Timestamp\<close> object: its message, its set of attestations, and \<open>ops\<close>, the
  dictionary from an operation to the \<open>Timestamp\<close> object of that operation's result.
  Timestamps are mutable and shared (the aggregator hands the same object to the caller,
  to the Merkle tree and to the calendar), so the objects live in a store: the address
  of an object is its position in the list, and a new object goes to the end.
\<close>

record timestamp =
  msg :: bytes
  attestations :: "attestation set"
  ops :: "(Op \<times> nat) list"

type_synonym heap = "timestamp list"

text \<open>\<open>Timestamp(msg)\<close>: a new object without attestations and operations.\<close>

definition Timestamp_init :: "heap \<Rightarrow> bytes \<Rightarrow> heap \<times> nat" where
  "Timestamp_init h m = (h @ [\<lparr>msg = m, attestations = {}, ops = []\<rparr>], length h)"

text \<open>
  \<open>stamp.ops.add(key)\<close>: the timestamp stored under \<open>key\<close>, created for the message
  \<open>key(stamp.msg)\<close> when there is none yet.
\<close>

definition OpSet_add :: "(bytes \<Rightarrow> bytes) \<Rightarrow> heap \<Rightarrow> nat \<Rightarrow> Op \<Rightarrow> heap \<times> nat" where
  "OpSet_add sha256 h stamp key =
     (case map_of (ops (h ! stamp)) key of
        Some v \<Rightarrow> (h, v)
      | None \<Rightarrow>
          (let (h', v) = Timestamp_init h (Op_call sha256 key (msg (h ! stamp)))
           in (h'[stamp := (h' ! stamp)\<lparr>ops := ops (h' ! stamp) @ [(key, v)]\<rparr>], v)))"

text \<open>\<open>stamp.ops[key] = v\<close>: dictionary assignment.\<close>

definition OpSet_setitem :: "heap \<Rightarrow> nat \<Rightarrow> Op \<Rightarrow> nat \<Rightarrow> heap" where
  "OpSet_setitem h stamp key v = h[stamp := (h ! stamp)\<lparr>ops := AList.update key v (ops (h ! stamp))\<rparr>]"

text \<open>
  \<open>a == b\<close> on timestamps: equal messages, equal attestations, and equal \<open>ops\<close>
  dictionaries (the same keys, with equal timestamps under each key). The comparison
  descends into the results; \<open>depth\<close> bounds the descent.
\<close>

fun Timestamp_eq :: "nat \<Rightarrow> heap \<Rightarrow> nat \<Rightarrow> nat \<Rightarrow> bool" where
  "Timestamp_eq 0 h a b = False"
| "Timestamp_eq (Suc depth) h a b =
     (msg (h ! a) = msg (h ! b) \<and> attestations (h ! a) = attestations (h ! b) \<and>
      set (map fst (ops (h ! a))) = set (map fst (ops (h ! b))) \<and>
      list_all (\<lambda>(k, v). case map_of (ops (h ! b)) k of
                            None \<Rightarrow> False
                          | Some w \<Rightarrow> Timestamp_eq depth h v w) (ops (h ! a)))"

text \<open>
  \<open>nonce_timestamp(private_timestamp)\<close>: an operation that carries fresh random bytes,
  then a hash. The random draw is the parameter \<open>nonce_op\<close>.
\<close>

definition nonce_timestamp :: "(bytes \<Rightarrow> bytes) \<Rightarrow> Op \<Rightarrow> heap \<Rightarrow> nat \<Rightarrow> heap \<times> nat" where
  "nonce_timestamp sha256 nonce_op h private_timestamp =
     (let (h1, stamp2) = OpSet_add sha256 h private_timestamp nonce_op
      in OpSet_add sha256 h1 stamp2 OpSHA256)"

text \<open>
  \<open>cat_sha256(left, right)\<close>, the binary operation of \<open>make_merkle_tree\<close>: \<open>left\<close>
  gets the operation "append \<open>right.msg\<close>", \<open>right\<close> the operation "prepend
  \<open>left.msg\<close>"; the two results are asserted equal and made one object, whose hash is
  the timestamp returned.
\<close>

definition cat_sha256 :: "(bytes \<Rightarrow> bytes) \<Rightarrow> heap \<Rightarrow> nat \<Rightarrow> nat \<Rightarrow> error + heap \<times> nat" where
  "cat_sha256 sha256 h left right =
     (let (h1, left_append_stamp) = OpSet_add sha256 h left (OpAppend (msg (h ! right)));
          (h2, right_prepend_stamp) = OpSet_add sha256 h1 right (OpPrepend (msg (h1 ! left)))
      in if \<not> Timestamp_eq (length h2) h2 left_append_stamp right_prepend_stamp
         then Inl AssertionError
         else Inr (OpSet_add sha256
                     (OpSet_setitem h2 left (OpAppend (msg (h2 ! right))) right_prepend_stamp)
                     right_prepend_stamp OpSHA256))"

text \<open>
  One pass of \<open>make_merkle_tree\<close> over the stamps: \<open>prev_stamp\<close> waits for a partner,
  each pair is combined into \<open>next_stamps\<close>.
\<close>

fun merkle_pass ::
  "(bytes \<Rightarrow> bytes) \<Rightarrow> heap \<Rightarrow> nat option \<Rightarrow> nat list \<Rightarrow> nat list \<Rightarrow>
   error + heap \<times> nat option \<times> nat list" where
  "merkle_pass sha256 h prev_stamp next_stamps [] = Inr (h, prev_stamp, next_stamps)"
| "merkle_pass sha256 h None next_stamps (stamp # stamps) =
     merkle_pass sha256 h (Some stamp) next_stamps stamps"
| "merkle_pass sha256 h (Some prev) next_stamps (stamp # stamps) =
     (case cat_sha256 sha256 h prev stamp of
        Inl e \<Rightarrow> Inl e
      | Inr (h', t) \<Rightarrow> merkle_pass sha256 h' None (next_stamps @ [t]) stamps)"

lemma merkle_pass_length:
  "merkle_pass sha256 h prev_stamp next_stamps stamps = Inr (h', prev_stamp', next_stamps') \<Longrightarrow>
   2 * length next_stamps' + (case prev_stamp' of None \<Rightarrow> 0 | Some _ \<Rightarrow> 1) =
   2 * length next_stamps + (case prev_stamp of None \<Rightarrow> 0 | Some _ \<Rightarrow> 1) + length stamps"
  by (induction sha256 h prev_stamp next_stamps stamps rule: merkle_pass.induct)
     (auto split: sum.splits)

text \<open>
  \<open>make_merkle_tree(timestamps)\<close>: passes are repeated until one stamp is left, the
  tip of the tree. No stamp at all is a \<open>ValueError\<close>; a single stamp is returned as
  it is (the pass forms no pair); from two stamps on, a pass forms at least one pair and
  the stamp left without a partner, if any, goes last into the next pass.
\<close>

function make_merkle_tree :: "(bytes \<Rightarrow> bytes) \<Rightarrow> heap \<Rightarrow> nat list \<Rightarrow> error + heap \<times> nat" where
  "make_merkle_tree sha256 h [] = Inl ValueError"
| "make_merkle_tree sha256 h [stamp] = Inr (h, stamp)"
| "make_merkle_tree sha256 h (stamp # stamp' # stamps) =
     (case merkle_pass sha256 h (Some stamp) [] (stamp' # stamps) of
        Inl e \<Rightarrow> Inl e
      | Inr (h', prev_stamp, next_stamps) \<Rightarrow>
          make_merkle_tree sha256 h'
            (case prev_stamp of None \<Rightarrow> next_stamps | Some prev \<Rightarrow> next_stamps @ [prev]))"
  by pat_completeness auto
termination
proof (relation "measure (\<lambda>(sha256, h, stamps). length stamps)")
  show "wf (measure (\<lambda>(sha256 :: bytes \<Rightarrow> bytes, h :: heap, stamps :: nat list). length stamps))"
    by simp
next
  fix sha256 :: "bytes \<Rightarrow> bytes" and h :: heap and stamp stamp' :: nat and stamps :: "nat list"
    and x2 :: "heap \<times> nat option \<times> nat list" and h' :: heap and y :: "nat option \<times> nat list"
    and prev_stamp :: "nat option" and next_stamps :: "nat list"
  assume "merkle_pass sha256 h (Some stamp) [] (stamp' # stamps) = Inr x2"
    and "(h', y) = x2" and "(prev_stamp, next_stamps) = y"
  then have "merkle_pass sha256 h (Some stamp) [] (stamp' # stamps) = Inr (h', prev_stamp, next_stamps)"
    by simp
  from merkle_pass_length [OF this]
  show "((sha256, h', case prev_stamp of None \<Rightarrow> next_stamps | Some prev \<Rightarrow> next_stamps @ [prev]),
         (sha256, h, stamp # stamp' # stamps))
        \<in> measure (\<lambda>(sha256, h, stamps). length stamps)"
    by (cases prev_stamp) auto
qed

section \<open>The calendar's submission (\<open>Calendar.submit\<close>)\<close>

text \<open>
  \<open>struct.pack('>L', v)\<close>: the four bytes of \<open>v\<close>, most significant first; a
  value outside \<open>0 .. 2^32 - 1\<close> raises \<open>struct.error\<close>.
\<close>

definition be_uint32 :: "int \<Rightarrow> bytes" where
  "be_uint32 v = [word_of_int (v div 2 ^ 24), word_of_int (v div 2 ^ 16),
                  word_of_int (v div 2 ^ 8), word_of_int v]"

definition struct_pack_L :: "int \<Rightarrow> error + bytes" where
  "struct_pack_L v = (if 0 \<le> v \<and> v < 2 ^ 32 then Inr (be_uint32 v) else Inl StructError)"

text \<open>
  \<open>Calendar.submit\<close>. \<open>now\<close> is \<open>int(time.time())\<close>, \<open>uri\<close> the calendar's
  \<open>self.uri\<close>, \<open>journal\<close> its \<open>self.journal\<close>. The result is the exception raised,
  if any, with the timestamp objects and the journal as the call leaves them.
\<close>

definition Calendar_submit ::
  "(bytes \<Rightarrow> bytes) \<Rightarrow> bytes \<Rightarrow> int \<Rightarrow> heap \<Rightarrow> append_fd \<Rightarrow> nat \<Rightarrow>
   error option \<times> heap \<times> append_fd" where
  "Calendar_submit sha256 uri now h journal submitted_commitment =
     (case struct_pack_L now of
        Inl e \<Rightarrow> (Some e, h, journal)
      | Inr serialized_time \<Rightarrow>
          (let (h1, commitment) =
                 OpSet_add sha256 h submitted_commitment (OpPrepend serialized_time);
               h2 = h1[commitment := (h1 ! commitment)
                        \<lparr>attestations :=
                           insert (PendingAttestation uri) (attestations (h1 ! commitment))\<rparr>];
               (r, journal') = JournalWriter_submit journal (msg (h2 ! commitment))
           in (r, h2, journal')))"

section \<open>The aggregator (\<open>Aggregator\<close>)\<close>

text \<open>
  What the aggregator's threads share and hold: the timestamp objects; the
  \<open>digest_queue\<close> of pairs (nonced timestamp, \<open>done_event\<close>); the
  \<open>threading.Event\<close> objects by address, each set or not; the calendar's journal;
  the callers blocked in \<open>done_event.wait()\<close>, each with its local \<open>timestamp\<close> and
  \<open>done_event\<close>; and whether the thread that runs \<open>__loop\<close> is alive.
\<close>

record aggregator =
  objects :: heap
  digest_queue :: "(nat \<times> nat) list"
  events :: "bool list"
  journal :: append_fd
  waiting :: "(nat \<times> nat) list"
  loop_alive :: bool

text \<open>\<open>Aggregator.__init__\<close>, with a calendar whose journal was opened on \<open>file\<close>.\<close>

definition Aggregator_init :: "bytes \<Rightarrow> aggregator" where
  "Aggregator_init file =
     \<lparr>objects = [], digest_queue = [], events = [], journal = JournalWriter_init file,
      waiting = [], loop_alive = True\<rparr>"

text \<open>
  \<open>Aggregator.submit\<close> up to \<open>done_event.wait()\<close>: the new timestamp, the new event,
  the nonced timestamp put on the queue. The caller then waits.
\<close>

definition Aggregator_submit :: "(bytes \<Rightarrow> bytes) \<Rightarrow> Op \<Rightarrow> aggregator \<Rightarrow> bytes \<Rightarrow> aggregator" where
  "Aggregator_submit sha256 nonce_op s m =
     (let (h1, timestamp) = Timestamp_init (objects s) m;
          done_event = length (events s);
          (h2, nonced) = nonce_timestamp sha256 nonce_op h1 timestamp
      in s\<lparr>objects := h2,
            events := events s @ [False],
            digest_queue := digest_queue s @ [(nonced, done_event)],
            waiting := waiting s @ [(timestamp, done_event)]\<rparr>)"

text \<open>
  The rest of \<open>Aggregator.submit\<close>: a caller whose event is set returns its
  \<open>timestamp\<close>; the others stay blocked.
\<close>

definition returned :: "aggregator \<Rightarrow> nat list" where
  "returned s = map fst (filter (\<lambda>(timestamp, done_event). events s ! done_event) (waiting s))"

text \<open>The inner loop of \<open>__loop\<close>: everything on the queue is taken off, in order.\<close>

fun drain :: "(nat \<times> nat) list \<Rightarrow> nat list \<Rightarrow> nat list \<Rightarrow> (nat \<times> nat) list \<times> nat list \<times> nat list" where
  "drain [] digests done_events = ([], digests, done_events)"
| "drain ((digest, done_event) # queue) digests done_events =
     drain queue (digests @ [digest]) (done_events @ [done_event])"

text \<open>\<open>for done_event in done_events: done_event.set()\<close>.\<close>

fun set_all :: "bool list \<Rightarrow> nat list \<Rightarrow> bool list" where
  "set_all evs [] = evs"
| "set_all evs (done_event # done_events) = set_all (evs[done_event := True]) done_events"

text \<open>
  One turn of \<open>while True\<close> in \<open>__loop\<close>, after the sleep; \<open>now\<close> is the clock that
  \<open>Calendar.submit\<close> reads. An exception leaves the loop.
\<close>

definition Aggregator_loop_body ::
  "(bytes \<Rightarrow> bytes) \<Rightarrow> bytes \<Rightarrow> int \<Rightarrow> aggregator \<Rightarrow> error option \<times> aggregator" where
  "Aggregator_loop_body sha256 uri now s =
     (let (queue, digests, done_events) = drain (digest_queue s) [] [];
          s1 = s\<lparr>digest_queue := queue\<rparr>
      in if length digests = 0 then (None, s1)
         else case make_merkle_tree sha256 (objects s1) digests of
                Inl e \<Rightarrow> (Some e, s1)
              | Inr (h', digests_commitment) \<Rightarrow>
                  (case Calendar_submit sha256 uri now h' (journal s1) digests_commitment of
                     (Some e, h'', journal') \<Rightarrow>
                       (Some e, s1\<lparr>objects := h'', journal := journal'\<rparr>)
                   | (None, h'', journal') \<Rightarrow>
                       (None, s1\<lparr>objects := h'', journal := journal',
                                  events := set_all (events s1) done_events\<rparr>)))"

text \<open>
  What happens to an aggregator: a caller submits a message (with the nonce drawn for
  it), or the loop thread wakes up at some time. A thread that has died of an exception
  wakes up no more. The threads share the queue and the events only, and a caller's
  objects are its own until it has put them on the queue, so each of the two is taken as
  one step.
\<close>

datatype action = Submit bytes Op | Tick int

fun step :: "(bytes \<Rightarrow> bytes) \<Rightarrow> bytes \<Rightarrow> aggregator \<Rightarrow> action \<Rightarrow> aggregator" where
  "step sha256 uri s (Submit m nonce_op) = Aggregator_submit sha256 nonce_op s m"
| "step sha256 uri s (Tick now) =
     (if loop_alive s
      then (case Aggregator_loop_body sha256 uri now s of
              (None, s') \<Rightarrow> s'
            | (Some e, s') \<Rightarrow> s'\<lparr>loop_alive := False\<rparr>)
      else s)"

fun run :: "(bytes \<Rightarrow> bytes) \<Rightarrow> bytes \<Rightarrow> aggregator \<Rightarrow> action list \<Rightarrow> aggregator" where
  "run sha256 uri s [] = s"
| "run sha256 uri s (a # as) = run sha256 uri (step sha256 uri s a) as"

text \<open>
  Reading a timestamp: \<open>follow h t path\<close> walks from the object \<open>t\<close> along the
  operations of \<open>path\<close>; \<open>apply_ops\<close> applies the same operations to a message.
\<close>

fun follow :: "heap \<Rightarrow> nat \<Rightarrow> Op list \<Rightarrow> nat option" where
  "follow h t [] = Some t"
| "follow h t (key # path) =
     (case map_of (ops (h ! t)) key of None \<Rightarrow> None | Some v \<Rightarrow> follow h v path)"

fun apply_ops :: "(bytes \<Rightarrow> bytes) \<Rightarrow> Op list \<Rightarrow> bytes \<Rightarrow> bytes" where
  "apply_ops sha256 [] m = m"
| "apply_ops sha256 (key # path) m = apply_ops sha256 path (Op_call sha256 key m)"

section \<open>Timestamps by value\<close>

text \<open>
  A timestamp read from a file or handed to the merge store, as a value: the message,
  the set of attestations, and the operations, each with the timestamp of its result.
  Two such values are equal when Python's \<open>==\<close> on timestamps holds.
\<close>

datatype stamp =
  Stamp (stamp_msg: bytes) (stamp_attestations: "attestation fset")
        (stamp_ops: "(Op \<times> stamp) fset")

section \<open>The calendar's lookup (\<open>Calendar.__getitem__\<close>)\<close>

text \<open>
  The part of the file system that the lookup reads: for a path, the directory there (the
  list of its files, each a name with its bytes), or nothing when the path does not
  exist. \<open>os.listdir\<close> gives the names, in no particular order.
\<close>

type_synonym directory = "(string \<times> bytes) list"
type_synonym filesystem = "string \<Rightarrow> directory option"

text \<open>
  The loop over \<open>sorted(timestamps)\<close>. \<open>deserialize\<close> stands for
  \<open>Timestamp.deserialize(ctx, commitment)\<close> on the bytes of a file, \<open>None\<close> for a
  \<open>DeserializationError\<close>. The result is the exception that ends the generator, if
  any, and the timestamps yielded before.
\<close>

fun lookup_loop ::
  "(bytes \<Rightarrow> bytes \<Rightarrow> stamp option) \<Rightarrow> bytes \<Rightarrow> directory \<Rightarrow> string list \<Rightarrow> bool \<Rightarrow>
   stamp list \<Rightarrow> error option \<times> stamp list" where
  "lookup_loop deserialize commitment dir [] no_valid_timestamps yielded =
     (if no_valid_timestamps then (Some KeyError, yielded) else (None, yielded))"
| "lookup_loop deserialize commitment dir (timestamp_filename # filenames)
     no_valid_timestamps yielded =
     (case map_of dir timestamp_filename of
        None \<Rightarrow> (Some FileNotFoundError, yielded)
      | Some content \<Rightarrow>
          (case deserialize content commitment of
             None \<Rightarrow> lookup_loop deserialize commitment dir filenames no_valid_timestamps yielded
           | Some timestamp \<Rightarrow>
               lookup_loop deserialize commitment dir filenames False (yielded @ [timestamp])))"

text \<open>
  \<open>Calendar.__getitem__\<close>. The method \<open>__commitment_timestamps_path\<close> that it calls
  is not in the source; it is the parameter \<open>commitment_timestamps_path\<close>.
\<close>

definition Calendar_getitem ::
  "(bytes \<Rightarrow> string) \<Rightarrow> (bytes \<Rightarrow> bytes \<Rightarrow> stamp option) \<Rightarrow> filesystem \<Rightarrow> bytes \<Rightarrow>
   error option \<times> stamp list" where
  "Calendar_getitem commitment_timestamps_path deserialize fs commitment =
     (let commitment_path = commitment_timestamps_path commitment
      in case fs commitment_path of
           None \<Rightarrow> (Some KeyError, [])
         | Some dir \<Rightarrow>
             (let timestamps = map fst dir
              in if timestamps = [] then (Some KeyError, [])
                 else lookup_loop deserialize commitment dir (sort timestamps) True []))"

section \<open>The keyed timestamp store (\<open>LevelDbCalendar\<close>)\<close>

text \<open>
  The key-value store \<open>self.db\<close>, and a write batch: the puts collected for one write.
\<close>

type_synonym leveldb = "bytes \<Rightarrow> bytes option"
type_synonym write_batch = "(bytes \<times> bytes) list"

definition db_Write :: "leveldb \<Rightarrow> write_batch \<Rightarrow> leveldb" where
  "db_Write db batch = foldl (\<lambda>d (k, v). d(k \<mapsto> v)) db batch"

text \<open>
  \<open>__get_timestamp\<close>: \<open>self.db.Get(msg)\<close> raises \<open>KeyError\<close> for a key that is not
  there; \<open>decode\<close> stands for the loop that builds the timestamp from the bytes found
  (it may raise).
\<close>

definition get_timestamp ::
  "(bytes \<Rightarrow> bytes \<Rightarrow> error + stamp) \<Rightarrow> leveldb \<Rightarrow> bytes \<Rightarrow> error + stamp" where
  "get_timestamp decode db m =
     (case db m of
        None \<Rightarrow> Inl KeyError
      | Some serialized_timestamp \<Rightarrow> decode m serialized_timestamp)"

text \<open>
  \<open>__add_timestamp\<close>. The source breaks off after the early return, inside the loop
  over the new operations; what follows \<open>modified = False\<close> is the parameter
  \<open>rest\<close>, which may read the store and gives the batch it was handed back with its
  puts, or raises.
\<close>

definition add_timestamp ::
  "(bytes \<Rightarrow> bytes \<Rightarrow> error + stamp) \<Rightarrow>
   (leveldb \<Rightarrow> stamp \<Rightarrow> stamp \<Rightarrow> write_batch \<Rightarrow> error + write_batch) \<Rightarrow>
   leveldb \<Rightarrow> stamp \<Rightarrow> write_batch \<Rightarrow> error + write_batch" where
  "add_timestamp decode rest db new_timestamp batch =
     (case (case get_timestamp decode db (stamp_msg new_timestamp) of
              Inl e \<Rightarrow> if e = KeyError then Inr (Stamp (stamp_msg new_timestamp) {||} {||})
                       else Inl e
            | Inr existing_timestamp \<Rightarrow> Inr existing_timestamp) of
        Inl e \<Rightarrow> Inl e
      | Inr existing_timestamp \<Rightarrow>
          if existing_timestamp = new_timestamp then Inr batch
          else rest db existing_timestamp new_timestamp batch)"

text \<open>
  \<open>LevelDbCalendar.add\<close>: \<open>batch\<close> is created, \<open>__add_timestamp\<close> is handed another,
  new batch, and \<open>batch\<close> is written. (\<open>self.db.WriteBatch()\<close> is taken to give a
  new, empty batch.)
\<close>

definition LevelDbCalendar_add ::
  "(bytes \<Rightarrow> bytes \<Rightarrow> error + stamp) \<Rightarrow>
   (leveldb \<Rightarrow> stamp \<Rightarrow> stamp \<Rightarrow> write_batch \<Rightarrow> error + write_batch) \<Rightarrow>
   leveldb \<Rightarrow> stamp \<Rightarrow> error option \<times> leveldb" where
  "LevelDbCalendar_add decode rest db new_timestamp =
     (let batch = []
      in case add_timestamp decode rest db new_timestamp [] of
           Inl e \<Rightarrow> (Some e, db)
         | Inr _ \<Rightarrow> (None, db_Write db batch))"

section \<open>Well-formed stores\<close>

text \<open>
  In a well-formed store every entry of every \<open>ops\<close> dictionary points to an object of
  the store whose message is the operation applied to the owner's message. The library
  keeps this: it creates the result of an operation from the owner's message.
\<close>

definition wf_heap :: "(bytes \<Rightarrow> bytes) \<Rightarrow> heap \<Rightarrow> bool" where
  "wf_heap sha256 h \<longleftrightarrow>
     (\<forall>a < length h. \<forall>(k, v) \<in> set (ops (h ! a)).
        v < length h \<and> msg (h ! v) = Op_call sha256 k (msg (h ! a)))"

text \<open>
  \<open>heap_ext h h'\<close>: \<open>h'\<close> is a later store than \<open>h\<close>. Objects are never removed,
  no message changes, and a dictionary that already has entries is left alone.
\<close>

definition heap_ext :: "heap \<Rightarrow> heap \<Rightarrow> bool" where
  "heap_ext h h' \<longleftrightarrow>
     length h \<le> length h' \<and>
     (\<forall>a < length h. msg (h' ! a) = msg (h ! a) \<and>
                      (ops (h ! a) \<noteq> [] \<longrightarrow> ops (h' ! a) = ops (h ! a)))"

text \<open>
  A stamp that the Merkle tree may still combine: an object of the store with no
  operation yet, for a 32-byte message.
\<close>

definition open_stamp :: "heap \<Rightarrow> nat \<Rightarrow> bool" where
  "open_stamp h a \<longleftrightarrow> a < length h \<and> ops (h ! a) = [] \<and> length (msg (h ! a)) = 32"

text \<open>\<open>msgs_kept h h'\<close>: every object of \<open>h\<close> is in \<open>h'\<close> with the message it had.\<close>

definition msgs_kept :: "heap \<Rightarrow> heap \<Rightarrow> bool" where
  "msgs_kept h h' \<longleftrightarrow> length h \<le> length h' \<and> (\<forall>a < length h. msg (h' ! a) = msg (h ! a))"

text \<open>
  What holds of an aggregator while its loop thread is alive: the store is well-formed;
  the journal's write position is on a record boundary; the queued stamps are distinct
  open stamps; and each caller whose event is not set yet has its nonced stamp on the
  queue, two operations below its own timestamp.
\<close>

definition agg_inv :: "(bytes \<Rightarrow> bytes) \<Rightarrow> aggregator \<Rightarrow> bool" where
  "agg_inv sha256 s \<longleftrightarrow>
     (loop_alive s \<longrightarrow>
        wf_heap sha256 (objects s) \<and>
        fd_tell (journal s) mod COMMITMENT_SIZE = 0 \<and>
        distinct (map fst (digest_queue s)) \<and>
        (\<forall>(n, e) \<in> set (digest_queue s). open_stamp (objects s) n \<and> e < length (events s)) \<and>
        (\<forall>(t, e) \<in> set (waiting s).
           t < length (objects s) \<and> e < length (events s) \<and>
           (\<not> events s ! e \<longrightarrow>
              (\<exists>n nonce_op. (n, e) \<in> set (digest_queue s) \<and>
                 follow (objects s) t [nonce_op, OpSHA256] = Some n))))"

section \<open>Properties of the journal\<close>

subsection \<open>Alignment\<close>

lemma tell_init_aligned: "fd_tell (JournalWriter_init file) mod COMMITMENT_SIZE = 0"
proof -
  have "(n + (36 - n mod 36)) mod 36 = 0" for n :: nat
    by presburger
  then show ?thesis
    by (simp add: JournalWriter_init_def fd_tell_def fd_write_def COMMITMENT_SIZE_def Let_def)
qed

lemma tell_submit_aligned:
  "fd_tell fd mod COMMITMENT_SIZE = 0 \<Longrightarrow>
   fd_tell (snd (JournalWriter_submit fd c)) mod COMMITMENT_SIZE = 0"
proof -
  have "(a + (b + COMMITMENT_SIZE)) mod COMMITMENT_SIZE = (a + b) mod COMMITMENT_SIZE"
    for a b :: nat
    by (simp add: add.assoc [symmetric])
  then show "fd_tell fd mod COMMITMENT_SIZE = 0 \<Longrightarrow> ?thesis"
    by (simp add: JournalWriter_submit_def fd_tell_def fd_write_def fd_flush_def)
qed

lemma tell_submit_all_aligned:
  "fd_tell fd mod COMMITMENT_SIZE = 0 \<Longrightarrow>
   fd_tell (submit_all fd cs) mod COMMITMENT_SIZE = 0"
  by (induction cs arbitrary: fd) (simp_all add: tell_submit_aligned)

lemma tell_journal_after_aligned:
  "fd_tell (journal_after file cs) mod COMMITMENT_SIZE = 0"
  by (simp add: journal_after_def tell_submit_all_aligned tell_init_aligned)

lemma submit_ok:
  assumes "length c = COMMITMENT_SIZE" and "fd_tell fd mod COMMITMENT_SIZE = 0"
  shows "JournalWriter_submit fd c = (None, \<lparr>disk = disk fd @ pending fd @ c, pending = []\<rparr>)"
  using assms by (simp add: JournalWriter_submit_def fd_write_def fd_flush_def)

lemma getitem_block:
  assumes "length c = COMMITMENT_SIZE" and "length pre = COMMITMENT_SIZE * m"
  shows "Journal_getitem (pre @ c @ post) (int m) = Inr c"
proof -
  have "nat (int m * int COMMITMENT_SIZE) = length pre"
    using assms(2) by (simp add: nat_mult_distrib mult.commute)
  moreover have "\<not> int m * int COMMITMENT_SIZE < 0"
    by (simp add: not_less)
  ultimately show ?thesis
    using assms(1) by (simp add: Journal_getitem_def Let_def del: of_nat_mult)
qed

subsection \<open>Submit, then read back\<close>

text \<open>
  C4: for every 36-byte entry \<open>e\<close> and every writer (opened on any file, after any
  sequence of earlier submits), \<open>submit e\<close> succeeds and a reader's \<open>get\<close> at the
  index assigned to \<open>e\<close>, the number of complete 36-byte records before it, returns
  exactly \<open>e\<close>.
\<close>

theorem journal_submit_then_get:
  assumes "length e = COMMITMENT_SIZE"
  shows "fst (JournalWriter_submit (journal_after file cs) e) = None \<and>
         Journal_getitem (disk (snd (JournalWriter_submit (journal_after file cs) e)))
           (int (fd_tell (journal_after file cs) div COMMITMENT_SIZE)) = Inr e"
proof -
  let ?w = "journal_after file cs"
  let ?pre = "disk ?w @ pending ?w"
  have al: "fd_tell ?w mod COMMITMENT_SIZE = 0"
    by (rule tell_journal_after_aligned)
  have sub: "JournalWriter_submit ?w e = (None, \<lparr>disk = ?pre @ e, pending = []\<rparr>)"
    using submit_ok [OF assms al] by simp
  have len: "length ?pre = COMMITMENT_SIZE * (fd_tell ?w div COMMITMENT_SIZE)"
    using al by (simp add: fd_tell_def mod_eq_0_iff_dvd)
  have "Journal_getitem (?pre @ e @ []) (int (fd_tell ?w div COMMITMENT_SIZE)) = Inr e"
    by (rule getitem_block [OF assms len])
  with sub show ?thesis by simp
qed

theorem journal_submit_then_get_witness:
  "length (replicate 36 (1::byte)) = COMMITMENT_SIZE \<and>
   fst (JournalWriter_submit (journal_after [7, 7] [replicate 36 2]) (replicate 36 1)) = None \<and>
   Journal_getitem (disk (snd (JournalWriter_submit (journal_after [7, 7] [replicate 36 2]) (replicate 36 1))))
     (int (fd_tell (journal_after [7, 7] [replicate 36 2]) div COMMITMENT_SIZE)) = Inr (replicate 36 1)"
  using journal_submit_then_get [of "replicate 36 1" "[7, 7]" "[replicate 36 2]"]
  by (simp add: COMMITMENT_SIZE_def)

subsection \<open>Rejected entries and missing records\<close>



subsection \<open>Opening a journal with a torn tail\<close>

text \<open>
  C6 as stated fails: the padding is appended after the torn tail, so entry \<open>n\<close>
  stays the tail (zero-extended) and the next submit lands in entry \<open>n + 1\<close>. Here
  the file holds the single byte \<open>0xFF\<close> (\<open>n = 0\<close>, \<open>k = 1\<close>).
\<close>

theorem journal_torn_tail_entry_counterexample:
  "length [255 :: byte] = COMMITMENT_SIZE * 0 + 1 \<and>
   Journal_getitem
     (disk (snd (JournalWriter_submit (JournalWriter_init [255]) (replicate 36 1)))) 0
     = Inr (255 # replicate 35 0) \<and>
   Journal_getitem
     (disk (snd (JournalWriter_submit (JournalWriter_init [255]) (replicate 36 1)))) 0
     \<noteq> Inr (replicate 36 1)"
  by code_simp

text \<open>
  C6, amended: when the file holds \<open>36 * n + k\<close> bytes with \<open>0 < k < 36\<close>, the
  opener writes \<open>36 - k\<close> zero bytes of padding behind the tail, which puts the write
  position at \<open>36 * (n + 1)\<close>; the next submit succeeds and leaves \<open>36 * (n + 2)\<close>
  bytes on disk, where entry \<open>n\<close> is the \<open>k\<close>-byte tail followed by the padding and
  entry \<open>n + 1\<close> is the submitted data.
\<close>

theorem journal_open_pads_torn_tail:
  assumes "length file = COMMITMENT_SIZE * n + k" and "0 < k" and "k < COMMITMENT_SIZE"
    and "length e = COMMITMENT_SIZE"
  shows "disk (JournalWriter_init file) = file \<and>
         pending (JournalWriter_init file) = replicate (COMMITMENT_SIZE - k) 0 \<and>
         fd_tell (JournalWriter_init file) = COMMITMENT_SIZE * (n + 1) \<and>
         JournalWriter_submit (JournalWriter_init file) e =
           (None, \<lparr>disk = file @ replicate (COMMITMENT_SIZE - k) 0 @ e, pending = []\<rparr>) \<and>
         length (file @ replicate (COMMITMENT_SIZE - k) 0 @ e) = COMMITMENT_SIZE * (n + 2) \<and>
         Journal_getitem (file @ replicate (COMMITMENT_SIZE - k) 0 @ e) (int n) =
           Inr (drop (COMMITMENT_SIZE * n) file @ replicate (COMMITMENT_SIZE - k) 0) \<and>
         Journal_getitem (file @ replicate (COMMITMENT_SIZE - k) 0 @ e) (int (n + 1)) = Inr e"
proof -
  let ?pad = "replicate (COMMITMENT_SIZE - k) (0 :: byte)"
  let ?w = "JournalWriter_init file"
  have km: "length file mod COMMITMENT_SIZE = k"
    using assms(1,3) by simp
  have w: "?w = \<lparr>disk = file, pending = ?pad\<rparr>"
    using km assms(2) by (simp add: JournalWriter_init_def fd_tell_def fd_write_def Let_def)
  have tell: "fd_tell ?w = COMMITMENT_SIZE * (n + 1)"
    using assms(1,3) by (simp add: w fd_tell_def)
  have sub: "JournalWriter_submit ?w e = (None, \<lparr>disk = file @ ?pad @ e, pending = []\<rparr>)"
    using submit_ok [of e ?w] assms(4) tell by (simp add: w)
  let ?tail = "drop (COMMITMENT_SIZE * n) file @ ?pad"
  have split: "file = take (COMMITMENT_SIZE * n) file @ drop (COMMITMENT_SIZE * n) file"
    by simp
  have lt: "length ?tail = COMMITMENT_SIZE"
    using assms(1,3) by simp
  have lp: "length (take (COMMITMENT_SIZE * n) file) = COMMITMENT_SIZE * n"
    using assms(1) by simp
  have "Journal_getitem (take (COMMITMENT_SIZE * n) file @ ?tail @ e) (int n) = Inr ?tail"
    by (rule getitem_block [OF lt lp])
  then have g1: "Journal_getitem (file @ ?pad @ e) (int n) = Inr ?tail"
    by (metis append.assoc split)
  have "length (file @ ?pad) = COMMITMENT_SIZE * (n + 1)"
    using assms(1,3) by simp
  from getitem_block [OF assms(4) this, of "[]"]
  have g2: "Journal_getitem (file @ ?pad @ e) (int (n + 1)) = Inr e"
    by simp
  have len: "length (file @ ?pad @ e) = COMMITMENT_SIZE * (n + 2)"
    using assms(1,3,4) by simp
  show ?thesis
    using w tell sub g1 g2 len by simp
qed

theorem journal_open_pads_torn_tail_witness:
  "length [9, 8 :: byte] = COMMITMENT_SIZE * 0 + 2 \<and> (0 :: nat) < 2 \<and> 2 < COMMITMENT_SIZE \<and>
   length (replicate 36 (1 :: byte)) = COMMITMENT_SIZE \<and>
   fd_tell (JournalWriter_init [9, 8]) = 36 \<and>
   JournalWriter_submit (JournalWriter_init [9, 8]) (replicate 36 1) =
     (None, \<lparr>disk = [9, 8] @ replicate 34 0 @ replicate 36 1, pending = []\<rparr>) \<and>
   Journal_getitem ([9, 8] @ replicate 34 0 @ replicate 36 1) 0 = Inr ([9, 8] @ replicate 34 0) \<and>
   Journal_getitem ([9, 8] @ replicate 34 0 @ replicate 36 1) 1 = Inr (replicate 36 1)"
  using journal_open_pads_torn_tail [of "[9, 8]" 0 2 "replicate 36 1"]
  by (simp add: COMMITMENT_SIZE_def)



section \<open>Properties of the timestamp store\<close>

lemma OpSet_add_old:
  "map_of (ops (h ! t)) k = Some v \<Longrightarrow> OpSet_add H h t k = (h, v)"
  by (simp add: OpSet_add_def)

lemma OpSet_add_new:
  assumes "map_of (ops (h ! t)) k = None" and "t < length h"
  shows "OpSet_add H h t k =
           (h[t := (h ! t)\<lparr>ops := ops (h ! t) @ [(k, length h)]\<rparr>]
              @ [\<lparr>msg = Op_call H k (msg (h ! t)), attestations = {}, ops = []\<rparr>],
            length h)"
  using assms by (simp add: OpSet_add_def Timestamp_init_def nth_append list_update_append1)

lemma OpSet_add_new_nth:
  assumes "map_of (ops (h ! t)) k = None" and "t < length h" and "OpSet_add H h t k = (h', v)"
  shows "v = length h" and "length h' = Suc (length h)"
    and "h' ! t = (h ! t)\<lparr>ops := ops (h ! t) @ [(k, length h)]\<rparr>"
    and "h' ! length h = \<lparr>msg = Op_call H k (msg (h ! t)), attestations = {}, ops = []\<rparr>"
    and "\<And>a. a < length h \<Longrightarrow> a \<noteq> t \<Longrightarrow> h' ! a = h ! a"
proof -
  have eq: "h' = h[t := (h ! t)\<lparr>ops := ops (h ! t) @ [(k, length h)]\<rparr>]
              @ [\<lparr>msg = Op_call H k (msg (h ! t)), attestations = {}, ops = []\<rparr>]"
    and v: "v = length h"
    using OpSet_add_new [OF assms(1,2), of H] assms(3) by simp_all
  show "v = length h" by (rule v)
  show "length h' = Suc (length h)" by (simp add: eq)
  show "h' ! t = (h ! t)\<lparr>ops := ops (h ! t) @ [(k, length h)]\<rparr>"
    using assms(2) by (simp add: eq nth_append)
  show "h' ! length h = \<lparr>msg = Op_call H k (msg (h ! t)), attestations = {}, ops = []\<rparr>"
    by (simp add: eq nth_append)
  show "\<And>a. a < length h \<Longrightarrow> a \<noteq> t \<Longrightarrow> h' ! a = h ! a"
    by (simp add: eq nth_append)
qed

lemma wf_heapD:
  "wf_heap H h \<Longrightarrow> a < length h \<Longrightarrow> (k, v) \<in> set (ops (h ! a)) \<Longrightarrow>
   v < length h \<and> msg (h ! v) = Op_call H k (msg (h ! a))"
  unfolding wf_heap_def by blast

lemma wf_heapI:
  "(\<And>a k v. a < length h \<Longrightarrow> (k, v) \<in> set (ops (h ! a)) \<Longrightarrow>
      v < length h \<and> msg (h ! v) = Op_call H k (msg (h ! a))) \<Longrightarrow> wf_heap H h"
  unfolding wf_heap_def by blast

lemma wf_heap_map_of:
  "wf_heap H h \<Longrightarrow> a < length h \<Longrightarrow> map_of (ops (h ! a)) k = Some v \<Longrightarrow>
   v < length h \<and> msg (h ! v) = Op_call H k (msg (h ! a))"
  by (meson map_of_SomeD wf_heapD)


lemma OpSet_add_new_msg:
  assumes "map_of (ops (h ! t)) k = None" and "t < length h" and "OpSet_add H h t k = (h', v)"
    and "a < length h"
  shows "msg (h' ! a) = msg (h ! a)"
proof (cases "a = t")
  case True
  then show ?thesis using OpSet_add_new_nth(3) [OF assms(1-3)] by simp
next
  case False
  then show ?thesis using OpSet_add_new_nth(5) [OF assms(1-3) assms(4)] by simp
qed

lemma wf_heap_OpSet_add:
  assumes "wf_heap H h" and "t < length h" and "OpSet_add H h t k = (h', v)"
  shows "wf_heap H h'"
proof (cases "map_of (ops (h ! t)) k")
  case (Some w)
  with assms show ?thesis by (simp add: OpSet_add_old)
next
  case None
  note n = OpSet_add_new_nth [OF None assms(2,3)]
  note m = OpSet_add_new_msg [OF None assms(2,3)]
  show ?thesis
  proof (rule wf_heapI)
    fix a k' v'
    assume a: "a < length h'" and x: "(k', v') \<in> set (ops (h' ! a))"
    from a n(2) have "a = length h \<or> a < length h" by auto
    then show "v' < length h' \<and> msg (h' ! v') = Op_call H k' (msg (h' ! a))"
    proof
      assume "a = length h"
      with x n(4) show ?thesis by simp
    next
      assume al: "a < length h"
      show ?thesis
      proof (cases "a = t")
        case True
        with x n(3) have "(k', v') \<in> set (ops (h ! t)) \<or> (k', v') = (k, length h)"
          by auto
        then show ?thesis
        proof
          assume old: "(k', v') \<in> set (ops (h ! t))"
          from wf_heapD [OF assms(1,2) old] m [of v'] m [of t] assms(2) n(2) True
          show ?thesis by simp
        next
          assume new: "(k', v') = (k, length h)"
          with n(2) n(4) m [of t] assms(2) True show ?thesis by simp
        qed
      next
        case False
        with x n(5) [OF al] have old: "(k', v') \<in> set (ops (h ! a))"
          by simp
        from wf_heapD [OF assms(1) al old] m [of v'] m [of a] al n(2)
        show ?thesis by simp
      qed
    qed
  qed
qed

lemma OpSet_add_result:
  assumes "wf_heap H h" and "t < length h" and "OpSet_add H h t k = (h', v)"
  shows "v < length h'" and "msg (h' ! v) = Op_call H k (msg (h ! t))" and "length h \<le> length h'"
    and "\<And>a. a < length h \<Longrightarrow> msg (h' ! a) = msg (h ! a)"
proof -
  have "v < length h' \<and> msg (h' ! v) = Op_call H k (msg (h ! t)) \<and> length h \<le> length h'
         \<and> (\<forall>a < length h. msg (h' ! a) = msg (h ! a))"
  proof (cases "map_of (ops (h ! t)) k")
    case (Some w)
    with assms wf_heap_map_of [OF assms(1,2) Some] show ?thesis by (simp add: OpSet_add_old)
  next
    case None
    note n = OpSet_add_new_nth [OF None assms(2,3)]
    note m = OpSet_add_new_msg [OF None assms(2,3)]
    from n(1,2,4) m show ?thesis by simp
  qed
  then show "v < length h'" and "msg (h' ! v) = Op_call H k (msg (h ! t))" and "length h \<le> length h'"
    and "\<And>a. a < length h \<Longrightarrow> msg (h' ! a) = msg (h ! a)"
    by simp_all
qed

lemma struct_pack_L_length: "struct_pack_L v = Inr b \<Longrightarrow> length b = 4"
  by (auto simp: struct_pack_L_def be_uint32_def split: if_splits)

lemma cat_sha256_open:
  assumes l: "l < length h" and r: "r < length h" and lr: "l \<noteq> r"
    and ol: "ops (h ! l) = []" and or: "ops (h ! r) = []"
  shows "cat_sha256 H h l r =
           Inr (h[l := (h ! l)\<lparr>ops := [(OpAppend (msg (h ! r)), Suc (length h))]\<rparr>,
                  r := (h ! r)\<lparr>ops := [(OpPrepend (msg (h ! l)), Suc (length h))]\<rparr>]
                @ [\<lparr>msg = msg (h ! l) @ msg (h ! r), attestations = {}, ops = []\<rparr>,
                   \<lparr>msg = msg (h ! l) @ msg (h ! r), attestations = {},
                    ops = [(OpSHA256, Suc (Suc (length h)))]\<rparr>,
                   \<lparr>msg = H (msg (h ! l) @ msg (h ! r)), attestations = {}, ops = []\<rparr>],
                Suc (Suc (length h)))"
proof -
  let ?n = "length h"
  let ?X = "\<lparr>msg = msg (h ! l) @ msg (h ! r), attestations = {}, ops = []\<rparr>"
  let ?L1 = "(h ! l)\<lparr>ops := [(OpAppend (msg (h ! r)), ?n)]\<rparr>"
  let ?h1 = "h[l := ?L1] @ [?X]"
  have a1: "OpSet_add H h l (OpAppend (msg (h ! r))) = (?h1, ?n)"
    using OpSet_add_new [of h l "OpAppend (msg (h ! r))" H] l ol by simp
  have h1r: "?h1 ! r = h ! r" and h1l: "?h1 ! l = ?L1" and len1: "length ?h1 = Suc ?n"
    using l r lr by (simp_all add: nth_append)
  let ?R1 = "(h ! r)\<lparr>ops := [(OpPrepend (msg (h ! l)), Suc ?n)]\<rparr>"
  let ?h2 = "?h1[r := ?R1] @ [?X]"
  have a2: "OpSet_add H ?h1 r (OpPrepend (msg (?h1 ! l))) = (?h2, Suc ?n)"
    using OpSet_add_new [of ?h1 r "OpPrepend (msg (?h1 ! l))" H] r or
    unfolding h1r h1l len1 by simp
  have len2: "length ?h2 = Suc (Suc ?n)" by simp
  have h2n: "?h2 ! ?n = ?X" and h2n1: "?h2 ! Suc ?n = ?X"
    using l r by (simp_all add: nth_append)
  have eq: "Timestamp_eq (length ?h2) ?h2 ?n (Suc ?n)"
    unfolding len2 Timestamp_eq.simps h2n h2n1 by simp
  have h2l: "?h2 ! l = ?L1" and h2r: "?h2 ! r = ?R1"
    using l r lr by (simp_all add: nth_append)
  let ?L2 = "(h ! l)\<lparr>ops := [(OpAppend (msg (h ! r)), Suc ?n)]\<rparr>"
  let ?h3 = "?h2[l := ?L2]"
  have set: "OpSet_setitem ?h2 l (OpAppend (msg (?h2 ! r))) (Suc ?n) = ?h3"
    unfolding OpSet_setitem_def h2l h2r by simp
  have h3n1: "?h3 ! Suc ?n = ?X" and len3: "length ?h3 = Suc (Suc ?n)"
    using l r by (simp_all add: nth_append)
  let ?Y = "\<lparr>msg = msg (h ! l) @ msg (h ! r), attestations = {},
             ops = [(OpSHA256, Suc (Suc ?n))]\<rparr>"
  let ?Z = "\<lparr>msg = H (msg (h ! l) @ msg (h ! r)), attestations = {}, ops = []\<rparr>"
  let ?h4 = "?h3[Suc ?n := ?Y] @ [?Z]"
  have a4: "OpSet_add H ?h3 (Suc ?n) OpSHA256 = (?h4, Suc (Suc ?n))"
    using OpSet_add_new [of ?h3 "Suc ?n" OpSHA256 H]
    unfolding h3n1 len3 by simp
  have shape: "?h4 = h[l := ?L2, r := ?R1] @ [?X, ?Y, ?Z]"
    using l r lr by (simp add: list_update_append list_update_swap [of l r])
  have "cat_sha256 H h l r = Inr (?h4, Suc (Suc ?n))"
    unfolding cat_sha256_def a1 Let_def prod.case a2 set a4 using eq by simp
  then show ?thesis
    unfolding shape .
qed

lemma heap_ext_refl: "heap_ext h h"
  by (simp add: heap_ext_def)

lemma heap_ext_trans:
  assumes "heap_ext h1 h2" and "heap_ext h2 h3"
  shows "heap_ext h1 h3"
  unfolding heap_ext_def
proof (intro conjI allI impI)
  show "length h1 \<le> length h3"
    using assms by (simp add: heap_ext_def)
next
  fix a assume a: "a < length h1"
  then have a2: "a < length h2" using assms(1) by (simp add: heap_ext_def)
  show "msg (h3 ! a) = msg (h1 ! a)"
    using assms a a2 by (simp add: heap_ext_def)
next
  fix a assume a: "a < length h1" and n: "ops (h1 ! a) \<noteq> []"
  then have a2: "a < length h2" using assms(1) by (simp add: heap_ext_def)
  have "ops (h2 ! a) = ops (h1 ! a)"
    using assms(1) a n by (simp add: heap_ext_def)
  moreover from this n have "ops (h3 ! a) = ops (h2 ! a)"
    using assms(2) a2 by (simp add: heap_ext_def)
  ultimately show "ops (h3 ! a) = ops (h1 ! a)" by simp
qed

lemma follow_append:
  "follow h t p = Some c \<Longrightarrow> follow h c q = Some d \<Longrightarrow> follow h t (p @ q) = Some d"
  by (induction p arbitrary: t) (auto split: option.splits)

lemma follow_ext:
  assumes "wf_heap H h" and "heap_ext h h'"
  shows "t < length h \<Longrightarrow> follow h t p = Some c \<Longrightarrow> follow h' t p = Some c"
proof (induction p arbitrary: t)
  case Nil
  then show ?case by simp
next
  case (Cons k p)
  from Cons.prems(2) obtain v where v: "map_of (ops (h ! t)) k = Some v"
    and rest: "follow h v p = Some c"
    by (auto split: option.splits)
  from v have "ops (h ! t) \<noteq> []" by auto
  with assms(2) Cons.prems(1) have same: "ops (h' ! t) = ops (h ! t)"
    by (simp add: heap_ext_def)
  from wf_heap_map_of [OF assms(1) Cons.prems(1) v] have "v < length h" by simp
  from Cons.IH [OF this rest] show ?case
    by (simp add: same v)
qed

lemma follow_msg:
  assumes "wf_heap H h"
  shows "t < length h \<Longrightarrow> follow h t p = Some c \<Longrightarrow>
         c < length h \<and> msg (h ! c) = apply_ops H p (msg (h ! t))"
proof (induction p arbitrary: t)
  case Nil
  then show ?case by simp
next
  case (Cons k p)
  from Cons.prems(2) obtain v where v: "map_of (ops (h ! t)) k = Some v"
    and rest: "follow h v p = Some c"
    by (auto split: option.splits)
  from wf_heap_map_of [OF assms Cons.prems(1) v]
  have vl: "v < length h" and vm: "msg (h ! v) = Op_call H k (msg (h ! t))" by simp_all
  from Cons.IH [OF vl rest] show ?case
    by (simp add: vm)
qed

lemma cat_sha256_props:
  assumes wf: "wf_heap H h" and H32: "\<forall>m. length (H m) = 32"
    and l: "l < length h" and r: "r < length h" and lr: "l \<noteq> r"
    and ol: "ops (h ! l) = []" and or: "ops (h ! r) = []"
  shows "\<exists>h'. cat_sha256 H h l r = Inr (h', Suc (Suc (length h))) \<and>
              wf_heap H h' \<and> heap_ext h h' \<and> length h' = length h + 3 \<and>
              open_stamp h' (Suc (Suc (length h))) \<and>
              follow h' l [OpAppend (msg (h ! r)), OpSHA256] = Some (Suc (Suc (length h))) \<and>
              follow h' r [OpPrepend (msg (h ! l)), OpSHA256] = Some (Suc (Suc (length h))) \<and>
              (\<forall>a < length h. a \<noteq> l \<longrightarrow> a \<noteq> r \<longrightarrow> h' ! a = h ! a)"
proof -
  let ?n = "length h"
  let ?X = "\<lparr>msg = msg (h ! l) @ msg (h ! r), attestations = {}, ops = []\<rparr>"
  let ?Y = "\<lparr>msg = msg (h ! l) @ msg (h ! r), attestations = {},
             ops = [(OpSHA256, Suc (Suc ?n))]\<rparr>"
  let ?Z = "\<lparr>msg = H (msg (h ! l) @ msg (h ! r)), attestations = {}, ops = []\<rparr>"
  let ?L = "(h ! l)\<lparr>ops := [(OpAppend (msg (h ! r)), Suc ?n)]\<rparr>"
  let ?R = "(h ! r)\<lparr>ops := [(OpPrepend (msg (h ! l)), Suc ?n)]\<rparr>"
  define h' where "h' = h[l := ?L, r := ?R] @ [?X, ?Y, ?Z]"
  have cat: "cat_sha256 H h l r = Inr (h', Suc (Suc ?n))"
    unfolding h'_def by (rule cat_sha256_open [OF l r lr ol or])
  have len: "length h' = ?n + 3"
    by (simp add: h'_def)
  have nl: "h' ! l = ?L" and nr: "h' ! r = ?R"
    using l r lr by (simp_all add: h'_def nth_append)
  have nx: "h' ! ?n = ?X" and ny: "h' ! Suc ?n = ?Y" and nz: "h' ! Suc (Suc ?n) = ?Z"
    by (simp_all add: h'_def nth_append)
  have other: "h' ! a = h ! a" if "a < ?n" "a \<noteq> l" "a \<noteq> r" for a
    using that by (simp add: h'_def nth_append)
  have msgs: "msg (h' ! a) = msg (h ! a)" if "a < ?n" for a
  proof -
    consider "a = l" | "a = r" | "a \<noteq> l" "a \<noteq> r" by blast
    then show ?thesis
    proof cases
      case 1 then show ?thesis using nl by simp
    next
      case 2 then show ?thesis using nr by simp
    next
      case 3 then show ?thesis using other [OF that] by simp
    qed
  qed
  have ext: "heap_ext h h'"
    unfolding heap_ext_def
  proof (intro conjI allI impI)
    show "?n \<le> length h'" using len by simp
  next
    fix a assume "a < ?n" then show "msg (h' ! a) = msg (h ! a)" by (rule msgs)
  next
    fix a assume a: "a < ?n" and n: "ops (h ! a) \<noteq> []"
    with ol or have "a \<noteq> l" "a \<noteq> r" by auto
    from other [OF a this] show "ops (h' ! a) = ops (h ! a)" by simp
  qed
  have wf': "wf_heap H h'"
  proof (rule wf_heapI)
    fix a k v
    assume a: "a < length h'" and kv: "(k, v) \<in> set (ops (h' ! a))"
    from a len consider "a = l" | "a = r" | "a < ?n" "a \<noteq> l" "a \<noteq> r"
      | "a = ?n" | "a = Suc ?n" | "a = Suc (Suc ?n)"
      by (metis Suc_eq_plus1 add_Suc_right less_Suc_eq numeral_3_eq_3 One_nat_def add.right_neutral)
    then show "v < length h' \<and> msg (h' ! v) = Op_call H k (msg (h' ! a))"
    proof cases
      case 1
      with kv nl have "k = OpAppend (msg (h ! r))" "v = Suc ?n" by simp_all
      then show ?thesis using 1 nl ny len by simp
    next
      case 2
      with kv nr have "k = OpPrepend (msg (h ! l))" "v = Suc ?n" by simp_all
      then show ?thesis using 2 nr ny len by simp
    next
      case 3
      with kv other [OF 3] have old: "(k, v) \<in> set (ops (h ! a))" by simp
      from wf_heapD [OF wf 3(1) old] have "v < ?n" "msg (h ! v) = Op_call H k (msg (h ! a))"
        by simp_all
      then show ?thesis using msgs [of v] msgs [of a] 3(1) len by simp
    next
      case 4
      with kv nx show ?thesis by simp
    next
      case 5
      with kv ny have "k = OpSHA256" "v = Suc (Suc ?n)" by simp_all
      then show ?thesis using 5 ny nz len by simp
    next
      case 6
      with kv nz show ?thesis by simp
    qed
  qed
  have opn: "open_stamp h' (Suc (Suc ?n))"
    using H32 by (simp add: open_stamp_def nz len)
  have fl: "follow h' l [OpAppend (msg (h ! r)), OpSHA256] = Some (Suc (Suc ?n))"
    by (simp add: nl ny)
  have fr: "follow h' r [OpPrepend (msg (h ! l)), OpSHA256] = Some (Suc (Suc ?n))"
    by (simp add: nr ny)
  from cat wf' ext len opn fl fr other show ?thesis by blast
qed

lemma open_stamp_kept:
  "open_stamp h a \<Longrightarrow> h' ! a = h ! a \<Longrightarrow> length h \<le> length h' \<Longrightarrow> open_stamp h' a"
  by (simp add: open_stamp_def)

lemma merkle_pass_props:
  shows "\<forall>m. length (H m) = 32 \<Longrightarrow> wf_heap H h \<Longrightarrow>
         distinct (nxt @ (case prev of None \<Rightarrow> [] | Some p \<Rightarrow> [p]) @ stamps) \<Longrightarrow>
         \<forall>a \<in> set (nxt @ (case prev of None \<Rightarrow> [] | Some p \<Rightarrow> [p]) @ stamps). open_stamp h a \<Longrightarrow>
         \<exists>h' prev' nxt'.
            merkle_pass H h prev nxt stamps = Inr (h', prev', nxt') \<and>
            wf_heap H h' \<and> heap_ext h h' \<and>
            distinct (nxt' @ (case prev' of None \<Rightarrow> [] | Some p \<Rightarrow> [p])) \<and>
            (\<forall>a \<in> set (nxt' @ (case prev' of None \<Rightarrow> [] | Some p \<Rightarrow> [p])). open_stamp h' a) \<and>
            (\<forall>a \<in> set (nxt @ (case prev of None \<Rightarrow> [] | Some p \<Rightarrow> [p]) @ stamps).
               \<exists>path c. follow h' a path = Some c \<and>
                        c \<in> set (nxt' @ (case prev' of None \<Rightarrow> [] | Some p \<Rightarrow> [p])))"
proof (induction H h prev nxt stamps rule: merkle_pass.induct)
  case (1 sha256 h prev_stamp next_stamps)
  have "\<exists>path c. follow h a path = Some c \<and>
          c \<in> set (next_stamps @ (case prev_stamp of None \<Rightarrow> [] | Some p \<Rightarrow> [p]))"
    if "a \<in> set (next_stamps @ (case prev_stamp of None \<Rightarrow> [] | Some p \<Rightarrow> [p]))" for a
  proof -
    have "follow h a [] = Some a" by simp
    with that show ?thesis by blast
  qed
  with 1 show ?case
    by (simp add: heap_ext_refl)
next
  case (2 sha256 h next_stamps stamp stamps)
  have d: "distinct (next_stamps @ (case Some stamp of None \<Rightarrow> [] | Some p \<Rightarrow> [p]) @ stamps)"
    using "2.prems"(3) by simp
  have o: "\<forall>a \<in> set (next_stamps @ (case Some stamp of None \<Rightarrow> [] | Some p \<Rightarrow> [p]) @ stamps).
             open_stamp h a"
    using "2.prems"(4) by simp
  from "2.IH" [OF "2.prems"(1) "2.prems"(2) d o] show ?case
    by simp
next
  case (3 sha256 h prev next_stamps stamp stamps)
  let ?n = "length h"
  let ?z = "Suc (Suc ?n)"
  from "3.prems"(3) have ps: "prev \<noteq> stamp" by auto
  from "3.prems"(4) have op: "open_stamp h prev" and os: "open_stamp h stamp" by simp_all
  from cat_sha256_props [OF "3.prems"(2) "3.prems"(1), of prev stamp] op os ps
  obtain h1 where cat: "cat_sha256 sha256 h prev stamp = Inr (h1, ?z)"
    and wf1: "wf_heap sha256 h1" and ext1: "heap_ext h h1" and len1: "length h1 = ?n + 3"
    and oz: "open_stamp h1 ?z"
    and fp: "follow h1 prev [OpAppend (msg (h ! stamp)), OpSHA256] = Some ?z"
    and fs: "follow h1 stamp [OpPrepend (msg (h ! prev)), OpSHA256] = Some ?z"
    and other: "\<forall>a < ?n. a \<noteq> prev \<longrightarrow> a \<noteq> stamp \<longrightarrow> h1 ! a = h ! a"
    by (auto simp: open_stamp_def)
  have rest_old: "a < ?n \<and> a \<noteq> prev \<and> a \<noteq> stamp \<and> open_stamp h a"
    if "a \<in> set next_stamps \<union> set stamps" for a
    using that "3.prems"(3,4) by (auto simp: open_stamp_def)
  have rest_open: "open_stamp h1 a" if "a \<in> set next_stamps \<union> set stamps" for a
  proof -
    from rest_old [OF that] other have "h1 ! a = h ! a" by simp
    with rest_old [OF that] len1 show ?thesis
      by (intro open_stamp_kept [of h a h1]) simp_all
  qed
  have d1: "distinct ((next_stamps @ [?z]) @ (case None of None \<Rightarrow> [] | Some p \<Rightarrow> [p]) @ stamps)"
    using "3.prems"(3) rest_old by fastforce
  have o1: "\<forall>a \<in> set ((next_stamps @ [?z]) @ (case None of None \<Rightarrow> [] | Some p \<Rightarrow> [p]) @ stamps).
              open_stamp h1 a"
    using rest_open oz by auto
  from "3.IH" [OF cat refl "3.prems"(1) wf1 d1 o1]
  obtain h' prev' nxt' where
    run: "merkle_pass sha256 h1 None (next_stamps @ [?z]) stamps = Inr (h', prev', nxt')"
    and wf': "wf_heap sha256 h'" and ext': "heap_ext h1 h'"
    and d': "distinct (nxt' @ (case prev' of None \<Rightarrow> [] | Some p \<Rightarrow> [p]))"
    and o': "\<forall>a \<in> set (nxt' @ (case prev' of None \<Rightarrow> [] | Some p \<Rightarrow> [p])). open_stamp h' a"
    and lead': "\<forall>a \<in> set ((next_stamps @ [?z]) @ (case None of None \<Rightarrow> [] | Some p \<Rightarrow> [p]) @ stamps).
                  \<exists>path c. follow h' a path = Some c \<and>
                           c \<in> set (nxt' @ (case prev' of None \<Rightarrow> [] | Some p \<Rightarrow> [p]))"
    by blast
  have res: "merkle_pass sha256 h (Some prev) next_stamps (stamp # stamps) = Inr (h', prev', nxt')"
    using cat run by simp
  from lead' obtain q c where q: "follow h' ?z q = Some c"
    and c: "c \<in> set (nxt' @ (case prev' of None \<Rightarrow> [] | Some p \<Rightarrow> [p]))"
    by auto
  have pl: "prev < length h1" and sl: "stamp < length h1"
    using op os len1 by (simp_all add: open_stamp_def)
  have lead_p: "\<exists>path c. follow h' prev path = Some c \<and>
                  c \<in> set (nxt' @ (case prev' of None \<Rightarrow> [] | Some p \<Rightarrow> [p]))"
    using follow_append [OF follow_ext [OF wf1 ext' pl fp] q] c by blast
  have lead_s: "\<exists>path c. follow h' stamp path = Some c \<and>
                  c \<in> set (nxt' @ (case prev' of None \<Rightarrow> [] | Some p \<Rightarrow> [p]))"
    using follow_append [OF follow_ext [OF wf1 ext' sl fs] q] c by blast
  have lead: "\<forall>a \<in> set (next_stamps @ (case Some prev of None \<Rightarrow> [] | Some p \<Rightarrow> [p]) @ stamp # stamps).
                \<exists>path c. follow h' a path = Some c \<and>
                         c \<in> set (nxt' @ (case prev' of None \<Rightarrow> [] | Some p \<Rightarrow> [p]))"
    using lead_p lead_s lead' by auto
  from res wf' heap_ext_trans [OF ext1 ext'] d' o' lead show ?case
    by blast
qed

lemma make_merkle_tree_props:
  "\<forall>m. length (H m) = 32 \<Longrightarrow> wf_heap H h \<Longrightarrow> distinct stamps \<Longrightarrow>
   \<forall>a \<in> set stamps. open_stamp h a \<Longrightarrow> stamps \<noteq> [] \<Longrightarrow>
   \<exists>h' tip. make_merkle_tree H h stamps = Inr (h', tip) \<and> wf_heap H h' \<and> heap_ext h h' \<and>
            open_stamp h' tip \<and> (\<forall>a \<in> set stamps. \<exists>path. follow h' a path = Some tip)"
proof (induction H h stamps rule: make_merkle_tree.induct)
  case (1 sha256 h)
  then show ?case by simp
next
  case (2 sha256 h stamp)
  have "follow h stamp [] = Some stamp" by simp
  then have "\<exists>path. follow h stamp path = Some stamp" by blast
  with 2 show ?case by (simp add: heap_ext_refl)
next
  case (3 sha256 h stamp stamp' stamps)
  let ?all = "stamp # stamp' # stamps"
  have d: "distinct ([] @ (case Some stamp of None \<Rightarrow> [] | Some p \<Rightarrow> [p]) @ stamp' # stamps)"
    using "3.prems"(3) by simp
  have o: "\<forall>a \<in> set ([] @ (case Some stamp of None \<Rightarrow> [] | Some p \<Rightarrow> [p]) @ stamp' # stamps).
             open_stamp h a"
    using "3.prems"(4) by simp
  from merkle_pass_props [OF "3.prems"(1) "3.prems"(2) d o]
  obtain h1 prev' nxt' where
    pass: "merkle_pass sha256 h (Some stamp) [] (stamp' # stamps) = Inr (h1, prev', nxt')"
    and wf1: "wf_heap sha256 h1" and ext1: "heap_ext h h1"
    and d1: "distinct (nxt' @ (case prev' of None \<Rightarrow> [] | Some p \<Rightarrow> [p]))"
    and o1: "\<forall>a \<in> set (nxt' @ (case prev' of None \<Rightarrow> [] | Some p \<Rightarrow> [p])). open_stamp h1 a"
    and lead1: "\<forall>a \<in> set ([] @ (case Some stamp of None \<Rightarrow> [] | Some p \<Rightarrow> [p]) @ stamp' # stamps).
                  \<exists>path c. follow h1 a path = Some c \<and>
                           c \<in> set (nxt' @ (case prev' of None \<Rightarrow> [] | Some p \<Rightarrow> [p]))"
    by blast
  let ?F = "case prev' of None \<Rightarrow> nxt' | Some prev \<Rightarrow> nxt' @ [prev]"
  have F: "?F = nxt' @ (case prev' of None \<Rightarrow> [] | Some p \<Rightarrow> [p])"
    by (cases prev') simp_all
  have ne: "?F \<noteq> []"
    using merkle_pass_length [OF pass] by (cases prev') auto
  have dF: "distinct ?F" and oF: "\<forall>a \<in> set ?F. open_stamp h1 a"
    using d1 o1 unfolding F by simp_all
  from "3.IH" [OF pass refl refl "3.prems"(1) wf1 dF oF ne]
  obtain h' tip where mk: "make_merkle_tree sha256 h1 ?F = Inr (h', tip)"
    and wf': "wf_heap sha256 h'" and ext': "heap_ext h1 h'" and ot: "open_stamp h' tip"
    and lead': "\<forall>a \<in> set ?F. \<exists>path. follow h' a path = Some tip"
    by blast
  have res: "make_merkle_tree sha256 h ?all = Inr (h', tip)"
    using pass mk by simp
  have lead: "\<exists>path. follow h' a path = Some tip" if a: "a \<in> set ?all" for a
  proof -
    from lead1 a obtain p c where p: "follow h1 a p = Some c" and c: "c \<in> set ?F"
      unfolding F by auto
    from lead' c obtain q where q: "follow h' c q = Some tip" by blast
    from ext1 "3.prems"(4) a have "a < length h1"
      by (auto simp: heap_ext_def open_stamp_def)
    from follow_append [OF follow_ext [OF wf1 ext' this p] q] show ?thesis by blast
  qed
  from res wf' heap_ext_trans [OF ext1 ext'] ot lead show ?case
    by blast
qed

lemma msgs_kept_refl: "msgs_kept h h"
  by (simp add: msgs_kept_def)

lemma msgs_kept_trans: "msgs_kept h1 h2 \<Longrightarrow> msgs_kept h2 h3 \<Longrightarrow> msgs_kept h1 h3"
  by (auto simp: msgs_kept_def)

lemma msgs_kept_ops_update: "msgs_kept h (h[t := (h ! t)\<lparr>ops := x\<rparr>])"
proof -
  have "msg (h[t := (h ! t)\<lparr>ops := x\<rparr>] ! a) = msg (h ! a)" if "a < length h" for a
    using that by (cases "a = t") simp_all
  then show ?thesis by (simp add: msgs_kept_def)
qed

lemma msgs_kept_attestations_update: "msgs_kept h (h[t := (h ! t)\<lparr>attestations := x\<rparr>])"
proof -
  have "msg (h[t := (h ! t)\<lparr>attestations := x\<rparr>] ! a) = msg (h ! a)" if "a < length h" for a
    using that by (cases "a = t") simp_all
  then show ?thesis by (simp add: msgs_kept_def)
qed

lemma msgs_kept_append: "msgs_kept h (h @ xs)"
  by (simp add: msgs_kept_def nth_append)

lemma msgs_kept_OpSet_add: "OpSet_add H h t k = (h', v) \<Longrightarrow> msgs_kept h h'"
proof (cases "map_of (ops (h ! t)) k")
  case None
  assume "OpSet_add H h t k = (h', v)"
  with None have "h' = (h @ [\<lparr>msg = Op_call H k (msg (h ! t)), attestations = {}, ops = []\<rparr>])
      [t := ((h @ [\<lparr>msg = Op_call H k (msg (h ! t)), attestations = {}, ops = []\<rparr>]) ! t)
         \<lparr>ops := ops ((h @ [\<lparr>msg = Op_call H k (msg (h ! t)), attestations = {}, ops = []\<rparr>]) ! t)
                  @ [(k, length h)]\<rparr>]"
    by (auto simp: OpSet_add_def Timestamp_init_def)
  then show ?thesis
    using msgs_kept_trans [OF msgs_kept_append msgs_kept_ops_update] by simp
next
  case (Some w)
  assume "OpSet_add H h t k = (h', v)"
  with Some show ?thesis by (simp add: OpSet_add_def msgs_kept_refl)
qed

lemma msgs_kept_setitem: "msgs_kept h (OpSet_setitem h t k v)"
  unfolding OpSet_setitem_def by (rule msgs_kept_ops_update)

lemma msgs_kept_cat_sha256:
  assumes "cat_sha256 H h l r = Inr (h', z)"
  shows "msgs_kept h h'"
proof -
  obtain h1 x where a1: "OpSet_add H h l (OpAppend (msg (h ! r))) = (h1, x)"
    by (cases "OpSet_add H h l (OpAppend (msg (h ! r)))")
  obtain h2 y where a2: "OpSet_add H h1 r (OpPrepend (msg (h1 ! l))) = (h2, y)"
    by (cases "OpSet_add H h1 r (OpPrepend (msg (h1 ! l)))")
  let ?h3 = "OpSet_setitem h2 l (OpAppend (msg (h2 ! r))) y"
  from assms a1 a2 have a4: "OpSet_add H ?h3 y OpSHA256 = (h', z)"
    by (simp add: cat_sha256_def split: if_splits)
  from msgs_kept_OpSet_add [OF a1] msgs_kept_OpSet_add [OF a2]
    msgs_kept_setitem [of h2 l "OpAppend (msg (h2 ! r))" y] msgs_kept_OpSet_add [OF a4]
  show ?thesis
    by (blast intro: msgs_kept_trans)
qed

lemma msgs_kept_merkle_pass:
  "merkle_pass H h prev nxt stamps = Inr (h', prev', nxt') \<Longrightarrow> msgs_kept h h'"
proof (induction H h prev nxt stamps rule: merkle_pass.induct)
  case (1 sha256 h prev_stamp next_stamps)
  then show ?case by (simp add: msgs_kept_refl)
next
  case (2 sha256 h next_stamps stamp stamps)
  then show ?case by simp
next
  case (3 sha256 h prev next_stamps stamp stamps)
  from "3.prems" obtain h1 t where cat: "cat_sha256 sha256 h prev stamp = Inr (h1, t)"
    and rest: "merkle_pass sha256 h1 None (next_stamps @ [t]) stamps = Inr (h', prev', nxt')"
    by (auto split: sum.splits)
  from msgs_kept_cat_sha256 [OF cat] "3.IH" [OF cat refl rest] show ?case
    by (rule msgs_kept_trans)
qed

lemma msgs_kept_make_merkle_tree:
  "make_merkle_tree H h stamps = Inr (h', tip) \<Longrightarrow> msgs_kept h h'"
proof (induction H h stamps rule: make_merkle_tree.induct)
  case (1 sha256 h)
  then show ?case by simp
next
  case (2 sha256 h stamp)
  then show ?case by (simp add: msgs_kept_refl)
next
  case (3 sha256 h stamp stamp' stamps)
  from "3.prems" obtain h1 prev' nxt' where
    pass: "merkle_pass sha256 h (Some stamp) [] (stamp' # stamps) = Inr (h1, prev', nxt')"
    and rest: "make_merkle_tree sha256 h1
                 (case prev' of None \<Rightarrow> nxt' | Some prev \<Rightarrow> nxt' @ [prev]) = Inr (h', tip)"
    by (auto split: sum.splits)
  from msgs_kept_merkle_pass [OF pass] "3.IH" [OF pass refl refl rest] show ?case
    by (rule msgs_kept_trans)
qed

lemma msgs_kept_Calendar_submit:
  assumes "Calendar_submit H uri now h j c = (r, h', j')"
  shows "msgs_kept h h'"
proof (cases "struct_pack_L now")
  case (Inl e)
  with assms show ?thesis by (simp add: Calendar_submit_def msgs_kept_refl)
next
  case (Inr t)
  obtain h1 commitment where add: "OpSet_add H h c (OpPrepend t) = (h1, commitment)"
    by (cases "OpSet_add H h c (OpPrepend t)")
  from assms Inr add have "h' = h1[commitment := (h1 ! commitment)
      \<lparr>attestations := insert (PendingAttestation uri) (attestations (h1 ! commitment))\<rparr>]"
    by (simp add: Calendar_submit_def Let_def split: prod.splits)
  with msgs_kept_OpSet_add [OF add] msgs_kept_attestations_update [of h1 commitment]
  show ?thesis
    by (auto intro: msgs_kept_trans)
qed

lemma drain_all: "drain q ds es = ([], ds @ map fst q, es @ map snd q)"
  by (induction q ds es rule: drain.induct) simp_all

lemma length_set_all: "length (set_all evs es) = length evs"
  by (induction evs es rule: set_all.induct) simp_all

lemma set_all_nth:
  "e < length evs \<Longrightarrow> set_all evs es ! e \<longleftrightarrow> evs ! e \<or> e \<in> set es"
proof (induction evs es rule: set_all.induct)
  case (1 evs)
  then show ?case by simp
next
  case (2 evs done_event done_events)
  from "2.prems" have "e < length (evs[done_event := True])" by simp
  from "2.IH" [OF this] "2.prems" show ?case
    by (cases "e = done_event") simp_all
qed

lemma msgs_kept_loop_body:
  assumes "Aggregator_loop_body H uri now s = (r, s')"
  shows "msgs_kept (objects s) (objects s')"
proof (cases "digest_queue s = []")
  case True
  with assms show ?thesis by (auto simp: Aggregator_loop_body_def msgs_kept_refl)
next
  case False
  show ?thesis
  proof (cases "make_merkle_tree H (objects s) (map fst (digest_queue s))")
    case (Inl e)
    with assms False show ?thesis
      by (auto simp: Aggregator_loop_body_def drain_all msgs_kept_refl)
  next
    case (Inr p)
    obtain h1 tip where p: "p = (h1, tip)" by (cases p)
    obtain r2 h2 j2 where cal: "Calendar_submit H uri now h1 (journal s) tip = (r2, h2, j2)"
      by (cases "Calendar_submit H uri now h1 (journal s) tip")
    from assms False Inr p cal have "objects s' = h2"
      by (cases r2) (auto simp: Aggregator_loop_body_def drain_all)
    with msgs_kept_make_merkle_tree [OF Inr [unfolded p]] msgs_kept_Calendar_submit [OF cal]
    show ?thesis
      by (auto intro: msgs_kept_trans)
  qed
qed

lemma Aggregator_submit_shape:
  "Aggregator_submit H nonce_op s m =
     s\<lparr>objects := objects s @
          [\<lparr>msg = m, attestations = {}, ops = [(nonce_op, Suc (length (objects s)))]\<rparr>,
           \<lparr>msg = Op_call H nonce_op m, attestations = {},
            ops = [(OpSHA256, Suc (Suc (length (objects s))))]\<rparr>,
           \<lparr>msg = H (Op_call H nonce_op m), attestations = {}, ops = []\<rparr>],
       events := events s @ [False],
       digest_queue := digest_queue s @ [(Suc (Suc (length (objects s))), length (events s))],
       waiting := waiting s @ [(length (objects s), length (events s))]\<rparr>"
proof -
  let ?h = "objects s"
  let ?n = "length ?h"
  let ?h1 = "?h @ [\<lparr>msg = m, attestations = {}, ops = []\<rparr>]"
  let ?T = "\<lparr>msg = m, attestations = {}, ops = [(nonce_op, Suc ?n)]\<rparr>"
  let ?Sa = "\<lparr>msg = Op_call H nonce_op m, attestations = {}, ops = []\<rparr>"
  let ?h2 = "?h @ [?T, ?Sa]"
  have a1: "OpSet_add H ?h1 ?n nonce_op = (?h2, Suc ?n)"
    using OpSet_add_new [of ?h1 ?n nonce_op H] by simp
  let ?Sb = "\<lparr>msg = Op_call H nonce_op m, attestations = {}, ops = [(OpSHA256, Suc (Suc ?n))]\<rparr>"
  let ?N = "\<lparr>msg = H (Op_call H nonce_op m), attestations = {}, ops = []\<rparr>"
  have "?h2 ! Suc ?n = ?Sa"
    by (simp add: nth_append)
  then have a2: "OpSet_add H ?h2 (Suc ?n) OpSHA256 = (?h @ [?T, ?Sb, ?N], Suc (Suc ?n))"
    using OpSet_add_new [of ?h2 "Suc ?n" OpSHA256 H] by (simp add: list_update_append)
  show ?thesis
    unfolding Aggregator_submit_def Timestamp_init_def nonce_timestamp_def Let_def prod.case a1 a2
    by simp
qed

lemma msgs_kept_step: "msgs_kept (objects s) (objects (step H uri s a))"
proof (cases a)
  case (Submit m nonce_op)
  then show ?thesis
    by (simp add: Aggregator_submit_shape msgs_kept_append)
next
  case (Tick now)
  obtain r s' where b: "Aggregator_loop_body H uri now s = (r, s')"
    by (cases "Aggregator_loop_body H uri now s")
  from msgs_kept_loop_body [OF b] Tick b show ?thesis
    by (cases r) (simp_all add: msgs_kept_refl)
qed

lemma msgs_kept_run: "msgs_kept (objects s) (objects (run H uri s as))"
proof (induction as arbitrary: s)
  case Nil
  then show ?case by (simp add: msgs_kept_refl)
next
  case (Cons a as)
  from msgs_kept_step [of s H uri a] Cons [of "step H uri s a"] show ?case
    by (auto intro: msgs_kept_trans)
qed

lemma wf_heap_attestations_update:
  assumes "wf_heap H h"
  shows "wf_heap H (h[c := (h ! c)\<lparr>attestations := A\<rparr>])"
proof -
  let ?h' = "h[c := (h ! c)\<lparr>attestations := A\<rparr>]"
  have same: "ops (?h' ! a) = ops (h ! a) \<and> msg (?h' ! a) = msg (h ! a)" if "a < length h" for a
    using that by (cases "a = c") simp_all
  show ?thesis
  proof (rule wf_heapI)
    fix a k v
    assume a: "a < length ?h'" and kv: "(k, v) \<in> set (ops (?h' ! a))"
    from a have al: "a < length h" by simp
    with kv same have "(k, v) \<in> set (ops (h ! a))" by simp
    from wf_heapD [OF assms al this] same [of v] same [OF al]
    show "v < length ?h' \<and> msg (?h' ! v) = Op_call H k (msg (?h' ! a))"
      by simp
  qed
qed

lemma Calendar_submit_open:
  assumes wf: "wf_heap H h" and tip: "open_stamp h tip"
    and t: "struct_pack_L now = Inr T" and al: "fd_tell j mod COMMITMENT_SIZE = 0"
  shows "\<exists>h'. Calendar_submit H uri now h j tip =
                 (None, h', \<lparr>disk = disk j @ pending j @ (T @ msg (h ! tip)), pending = []\<rparr>) \<and>
              wf_heap H h' \<and> heap_ext h h' \<and> length h' = Suc (length h) \<and>
              follow h' tip [OpPrepend T] = Some (length h) \<and>
              msg (h' ! length h) = T @ msg (h ! tip) \<and>
              PendingAttestation uri \<in> attestations (h' ! length h)"
proof -
  let ?n = "length h"
  from tip have tl: "tip < ?n" and none: "map_of (ops (h ! tip)) (OpPrepend T) = None"
    and m32: "length (msg (h ! tip)) = 32"
    by (simp_all add: open_stamp_def)
  obtain h1 c where add: "OpSet_add H h tip (OpPrepend T) = (h1, c)"
    by (cases "OpSet_add H h tip (OpPrepend T)")
  note n = OpSet_add_new_nth [OF none tl add]
  have wf1: "wf_heap H h1" by (rule wf_heap_OpSet_add [OF wf tl add])
  let ?A = "insert (PendingAttestation uri) (attestations (h1 ! c))"
  define h' where "h' = h1[c := (h1 ! c)\<lparr>attestations := ?A\<rparr>]"
  have wf': "wf_heap H h'"
    unfolding h'_def by (rule wf_heap_attestations_update [OF wf1])
  have len': "length h' = Suc ?n"
    by (simp add: h'_def n(2))
  have nc: "h' ! ?n = (h1 ! ?n)\<lparr>attestations := ?A\<rparr>"
    using n(1,2) by (simp add: h'_def)
  have old: "h' ! a = h1 ! a" if "a < ?n" for a
    using that n(1) by (simp add: h'_def)
  have mc: "msg (h' ! ?n) = T @ msg (h ! tip)"
    by (simp add: nc n(4))
  have att: "PendingAttestation uri \<in> attestations (h' ! ?n)"
    by (simp add: nc)
  have ft: "follow h' tip [OpPrepend T] = Some ?n"
    using old [OF tl] n(3) tip by (simp add: open_stamp_def)
  have ext: "heap_ext h h'"
    unfolding heap_ext_def
  proof (intro conjI allI impI)
    show "?n \<le> length h'" using len' by simp
  next
    fix a assume a: "a < ?n"
    show "msg (h' ! a) = msg (h ! a)"
      using old [OF a] OpSet_add_new_msg [OF none tl add a] by simp
  next
    fix a assume a: "a < ?n" and ne: "ops (h ! a) \<noteq> []"
    with tip have "a \<noteq> tip" by (auto simp: open_stamp_def)
    with old [OF a] n(5) [OF a] show "ops (h' ! a) = ops (h ! a)" by simp
  qed
  have rec: "length (T @ msg (h ! tip)) = COMMITMENT_SIZE"
    using struct_pack_L_length [OF t] m32 by (simp add: COMMITMENT_SIZE_def)
  have "msg (h' ! c) = T @ msg (h ! tip)"
    using mc n(1) by simp
  then have "Calendar_submit H uri now h j tip =
          (fst (JournalWriter_submit j (T @ msg (h ! tip))), h',
           snd (JournalWriter_submit j (T @ msg (h ! tip))))"
    using t add by (simp add: Calendar_submit_def Let_def h'_def split: prod.splits)
  then have "Calendar_submit H uri now h j tip =
          (None, h', \<lparr>disk = disk j @ pending j @ (T @ msg (h ! tip)), pending = []\<rparr>)"
    unfolding submit_ok [OF rec al] fst_conv snd_conv .
  with wf' ext len' ft mc att show ?thesis by blast
qed

lemma heap_ext_append_new: "heap_ext h (h @ xs)"
  by (simp add: heap_ext_def nth_append)

lemma agg_inv_init: "agg_inv H (Aggregator_init file)"
  by (simp add: agg_inv_def Aggregator_init_def wf_heap_def tell_init_aligned)

lemma wf_heap_submit:
  assumes "wf_heap H h"
  shows "wf_heap H (h @
          [\<lparr>msg = m, attestations = {}, ops = [(nonce_op, Suc (length h))]\<rparr>,
           \<lparr>msg = Op_call H nonce_op m, attestations = {},
            ops = [(OpSHA256, Suc (Suc (length h)))]\<rparr>,
           \<lparr>msg = H (Op_call H nonce_op m), attestations = {}, ops = []\<rparr>])"
    (is "wf_heap H ?h'")
proof (rule wf_heapI)
  let ?n = "length h"
  fix a k v
  assume a: "a < length ?h'" and kv: "(k, v) \<in> set (ops (?h' ! a))"
  from a consider "a < ?n" | "a = ?n" | "a = Suc ?n" | "a = Suc (Suc ?n)"
    by (auto simp: less_Suc_eq)
  then show "v < length ?h' \<and> msg (?h' ! v) = Op_call H k (msg (?h' ! a))"
  proof cases
    case 1
    with kv have "(k, v) \<in> set (ops (h ! a))" by (simp add: nth_append)
    from wf_heapD [OF assms 1 this] 1 show ?thesis by (simp add: nth_append)
  next
    case 2
    with kv show ?thesis by (simp add: nth_append)
  next
    case 3
    with kv show ?thesis by (simp add: nth_append)
  next
    case 4
    with kv show ?thesis by (simp add: nth_append)
  qed
qed

lemma agg_inv_submit:
  assumes H32: "\<forall>m. length (H m) = 32" and inv: "agg_inv H s"
  shows "agg_inv H (Aggregator_submit H nonce_op s m)"
proof (cases "loop_alive s")
  case False
  then show ?thesis by (simp add: Aggregator_submit_shape agg_inv_def)
next
  case True
  let ?h = "objects s"
  let ?n = "length ?h"
  let ?new = "[\<lparr>msg = m, attestations = {}, ops = [(nonce_op, Suc ?n)]\<rparr>,
               \<lparr>msg = Op_call H nonce_op m, attestations = {}, ops = [(OpSHA256, Suc (Suc ?n))]\<rparr>,
               \<lparr>msg = H (Op_call H nonce_op m), attestations = {}, ops = []\<rparr>]"
  let ?h' = "?h @ ?new"
  let ?e = "length (events s)"
  from inv True have wf: "wf_heap H ?h"
    and al: "fd_tell (journal s) mod COMMITMENT_SIZE = 0"
    and dq: "distinct (map fst (digest_queue s))"
    and oq: "\<And>n e. (n, e) \<in> set (digest_queue s) \<Longrightarrow> open_stamp ?h n \<and> e < ?e"
    and wt: "\<And>t e. (t, e) \<in> set (waiting s) \<Longrightarrow> t < ?n \<and> e < ?e \<and>
               (\<not> events s ! e \<longrightarrow> (\<exists>n nonce_op. (n, e) \<in> set (digest_queue s) \<and>
                  follow ?h t [nonce_op, OpSHA256] = Some n))"
    unfolding agg_inv_def by blast+
  have wf': "wf_heap H ?h'" by (rule wf_heap_submit [OF wf])
  have ext: "heap_ext ?h ?h'" by (rule heap_ext_append_new)
  have new_open: "open_stamp ?h' (Suc (Suc ?n))"
    using H32 by (simp add: open_stamp_def nth_append)
  have old_open: "open_stamp ?h' n" if "open_stamp ?h n" for n
    using that by (simp add: open_stamp_def nth_append)
  have fresh: "Suc (Suc ?n) \<notin> fst ` set (digest_queue s)"
  proof
    assume "Suc (Suc ?n) \<in> fst ` set (digest_queue s)"
    then obtain e where "(Suc (Suc ?n), e) \<in> set (digest_queue s)" by auto
    from oq [OF this] show False by (simp add: open_stamp_def)
  qed
  have dq': "distinct (map fst (digest_queue s @ [(Suc (Suc ?n), ?e)]))"
    using dq fresh by simp
  have oq': "open_stamp ?h' n \<and> e < length (events s @ [False])"
    if "(n, e) \<in> set (digest_queue s @ [(Suc (Suc ?n), ?e)])" for n e
  proof (cases "(n, e) \<in> set (digest_queue s)")
    case True
    from oq [OF this] old_open show ?thesis by simp
  next
    case False
    with that have "n = Suc (Suc ?n)" "e = ?e" by simp_all
    with new_open show ?thesis by simp
  qed
  have wt': "t < length ?h' \<and> e < length (events s @ [False]) \<and>
             (\<not> (events s @ [False]) ! e \<longrightarrow>
                (\<exists>n nonce_op. (n, e) \<in> set (digest_queue s @ [(Suc (Suc ?n), ?e)]) \<and>
                   follow ?h' t [nonce_op, OpSHA256] = Some n))"
    if "(t, e) \<in> set (waiting s @ [(?n, ?e)])" for t e
  proof (cases "(t, e) \<in> set (waiting s)")
    case True
    from wt [OF this] have tl: "t < ?n" and el: "e < ?e"
      and q: "\<not> events s ! e \<Longrightarrow> \<exists>n nonce_op. (n, e) \<in> set (digest_queue s) \<and>
                  follow ?h t [nonce_op, OpSHA256] = Some n"
      by blast+
    have "\<exists>n nonce_op. (n, e) \<in> set (digest_queue s @ [(Suc (Suc ?n), ?e)]) \<and>
            follow ?h' t [nonce_op, OpSHA256] = Some n"
      if "\<not> (events s @ [False]) ! e"
    proof -
      from that el have "\<not> events s ! e" by (simp add: nth_append)
      from q [OF this] obtain n k where nq: "(n, e) \<in> set (digest_queue s)"
        and f: "follow ?h t [k, OpSHA256] = Some n" by blast
      from follow_ext [OF wf ext tl f] nq show ?thesis by auto
    qed
    with tl el show ?thesis by auto
  next
    case False
    with that have te: "t = ?n" "e = ?e" by simp_all
    have "follow ?h' ?n [nonce_op, OpSHA256] = Some (Suc (Suc ?n))"
      by (simp add: nth_append)
    then have "\<exists>n k. (n, ?e) \<in> set (digest_queue s @ [(Suc (Suc ?n), ?e)]) \<and>
            follow ?h' ?n [k, OpSHA256] = Some n"
      by (intro exI [of _ "Suc (Suc ?n)"] exI [of _ nonce_op]) simp
    with te show ?thesis by simp
  qed
  let ?s' = "Aggregator_submit H nonce_op s m"
  have fields: "objects ?s' = ?h'" "digest_queue ?s' = digest_queue s @ [(Suc (Suc ?n), ?e)]"
    "events ?s' = events s @ [False]" "journal ?s' = journal s"
    "waiting ?s' = waiting s @ [(?n, ?e)]"
    by (simp_all add: Aggregator_submit_shape)
  have Q: "\<forall>(n, e) \<in> set (digest_queue s @ [(Suc (Suc ?n), ?e)]).
             open_stamp ?h' n \<and> e < length (events s @ [False])"
    using oq' by blast
  have W: "\<forall>(t, e) \<in> set (waiting s @ [(?n, ?e)]).
             t < length ?h' \<and> e < length (events s @ [False]) \<and>
             (\<not> (events s @ [False]) ! e \<longrightarrow>
                (\<exists>n nonce_op. (n, e) \<in> set (digest_queue s @ [(Suc (Suc ?n), ?e)]) \<and>
                   follow ?h' t [nonce_op, OpSHA256] = Some n))"
    using wt' by blast
  show ?thesis
    unfolding agg_inv_def fields using wf' al dq' Q W by blast
qed

lemma tick_props:
  assumes H32: "\<forall>m. length (H m) = 32" and inv: "agg_inv H s" and alive: "loop_alive s"
    and ne: "digest_queue s \<noteq> []" and t: "struct_pack_L now = Inr T"
  shows "\<exists>s' tip. Aggregator_loop_body H uri now s = (None, s') \<and> agg_inv H s' \<and> loop_alive s' \<and>
           journal s' = \<lparr>disk = disk (journal s) @ pending (journal s) @
                                  (T @ msg (objects s' ! tip)), pending = []\<rparr> \<and>
           tip < length (objects s') \<and> length (msg (objects s' ! tip)) = 32 \<and>
           wf_heap H (objects s') \<and> waiting s' = waiting s \<and>
           length (events s') = length (events s) \<and>
           (\<forall>(c, e) \<in> set (waiting s). \<not> events s ! e \<longrightarrow>
              events s' ! e \<and> (\<exists>path. follow (objects s') c path = Some tip))"
proof -
  let ?h = "objects s"
  let ?q = "digest_queue s"
  let ?stamps = "map fst ?q"
  let ?dones = "map snd ?q"
  from inv alive have wf: "wf_heap H ?h"
    and al: "fd_tell (journal s) mod COMMITMENT_SIZE = 0"
    and dq: "distinct ?stamps"
    and oq: "\<And>n e. (n, e) \<in> set ?q \<Longrightarrow> open_stamp ?h n \<and> e < length (events s)"
    and wt: "\<And>c e. (c, e) \<in> set (waiting s) \<Longrightarrow> c < length ?h \<and> e < length (events s) \<and>
               (\<not> events s ! e \<longrightarrow> (\<exists>n nonce_op. (n, e) \<in> set ?q \<and>
                  follow ?h c [nonce_op, OpSHA256] = Some n))"
    unfolding agg_inv_def by blast+
  have os: "\<forall>a \<in> set ?stamps. open_stamp ?h a"
    using oq by auto
  have sne: "?stamps \<noteq> []" using ne by simp
  from make_merkle_tree_props [OF H32 wf dq os sne]
  obtain h1 tip where mk: "make_merkle_tree H ?h ?stamps = Inr (h1, tip)"
    and wf1: "wf_heap H h1" and ext1: "heap_ext ?h h1" and ot: "open_stamp h1 tip"
    and lead: "\<And>a. a \<in> set ?stamps \<Longrightarrow> \<exists>path. follow h1 a path = Some tip"
    by blast
  from Calendar_submit_open [OF wf1 ot t al, of uri]
  obtain h2 where cal: "Calendar_submit H uri now h1 (journal s) tip =
        (None, h2, \<lparr>disk = disk (journal s) @ pending (journal s) @ (T @ msg (h1 ! tip)),
                    pending = []\<rparr>)"
    and wf2: "wf_heap H h2" and ext2: "heap_ext h1 h2" and len2: "length h2 = Suc (length h1)"
    by blast
  let ?J = "\<lparr>disk = disk (journal s) @ pending (journal s) @ (T @ msg (h1 ! tip)), pending = []\<rparr>"
  let ?ev = "set_all (events s) ?dones"
  define s' where "s' = s\<lparr>digest_queue := [], objects := h2, journal := ?J, events := ?ev\<rparr>"
  have body: "Aggregator_loop_body H uri now s = (None, s')"
    using ne by (simp add: Aggregator_loop_body_def drain_all mk cal s'_def)
  have fields: "objects s' = h2" "digest_queue s' = []" "events s' = ?ev" "journal s' = ?J"
    "waiting s' = waiting s" "loop_alive s' = loop_alive s"
    by (simp_all add: s'_def)
  from ot have tl1: "tip < length h1" and m32: "length (msg (h1 ! tip)) = 32"
    by (simp_all add: open_stamp_def)
  have mt: "msg (h2 ! tip) = msg (h1 ! tip)"
    using ext2 tl1 by (simp add: heap_ext_def)
  have tl2: "tip < length h2" using tl1 len2 by simp
  have len01: "length ?h \<le> length h1" using ext1 by (simp add: heap_ext_def)
  have rec: "length (T @ msg (h1 ! tip)) = COMMITMENT_SIZE"
    using struct_pack_L_length [OF t] m32 by (simp add: COMMITMENT_SIZE_def)
  have "fd_tell ?J = fd_tell (journal s) + COMMITMENT_SIZE"
    using rec by (simp add: fd_tell_def)
  with al have alJ: "fd_tell ?J mod COMMITMENT_SIZE = 0"
    by simp
  have ev_set: "?ev ! e" if "(n, e) \<in> set ?q" for n e
  proof -
    from oq [OF that] have "e < length (events s)" by simp
    moreover from that have "e \<in> set ?dones" by force
    ultimately show ?thesis by (simp add: set_all_nth)
  qed
  have served: "?ev ! e \<and> (\<exists>path. follow h2 c path = Some tip)"
    if w: "(c, e) \<in> set (waiting s)" and u: "\<not> events s ! e" for c e
  proof -
    from wt [OF w] u obtain n k where cl: "c < length ?h" and nq: "(n, e) \<in> set ?q"
      and f: "follow ?h c [k, OpSHA256] = Some n"
      by blast
    from nq have "n \<in> set ?stamps" by force
    from lead [OF this] obtain p where p: "follow h1 n p = Some tip" by blast
    have "follow h1 c ([k, OpSHA256] @ p) = Some tip"
      by (rule follow_append [OF follow_ext [OF wf ext1 cl f] p])
    moreover have "c < length h1" using cl len01 by simp
    ultimately have "follow h2 c ([k, OpSHA256] @ p) = Some tip"
      by (rule follow_ext [OF wf1 ext2, rotated])
    with ev_set [OF nq] show ?thesis by blast
  qed
  have W: "\<forall>(c, e) \<in> set (waiting s).
             c < length h2 \<and> e < length ?ev \<and>
             (\<not> ?ev ! e \<longrightarrow> (\<exists>n nonce_op. (n, e) \<in> set [] \<and>
                  follow h2 c [nonce_op, OpSHA256] = Some n))"
  proof (intro ballI, clarify)
    fix c e assume w: "(c, e) \<in> set (waiting s)"
    from wt [OF w] have cl: "c < length ?h" and el: "e < length (events s)" by simp_all
    have "?ev ! e"
    proof (cases "events s ! e")
      case True
      with el show ?thesis by (simp add: set_all_nth)
    next
      case False
      from served [OF w False] show ?thesis by simp
    qed
    with cl el len01 len2
    show "c < length h2 \<and> e < length ?ev \<and>
          (\<not> ?ev ! e \<longrightarrow> (\<exists>n nonce_op. (n, e) \<in> set [] \<and>
             follow h2 c [nonce_op, OpSHA256] = Some n))"
      by (simp add: length_set_all)
  qed
  have inv': "agg_inv H s'"
    unfolding agg_inv_def fields using wf2 alJ W by simp
  have S: "\<forall>(c, e) \<in> set (waiting s). \<not> events s ! e \<longrightarrow>
              events s' ! e \<and> (\<exists>path. follow (objects s') c path = Some tip)"
    unfolding fields using served by blast
  have J: "journal s' = \<lparr>disk = disk (journal s) @ pending (journal s) @
                                  (T @ msg (objects s' ! tip)), pending = []\<rparr>"
    unfolding fields mt ..
  from body inv' alive J tl2 m32 mt wf2 S show ?thesis
    unfolding fields [symmetric]
    by (intro exI [of _ s'] exI [of _ tip]) (simp add: fields length_set_all)
qed

lemma agg_inv_dead: "\<not> loop_alive s \<Longrightarrow> agg_inv H s"
  by (simp add: agg_inv_def)

lemma tick_packs:
  assumes H32: "\<forall>m. length (H m) = 32" and inv: "agg_inv H s" and alive: "loop_alive s"
    and ne: "digest_queue s \<noteq> []" and body: "Aggregator_loop_body H uri now s = (None, s')"
  shows "\<exists>T. struct_pack_L now = Inr T"
proof (cases "struct_pack_L now")
  case (Inr T)
  then show ?thesis by blast
next
  case (Inl e)
  have cal: "Calendar_submit H uri now h j c = (Some e, h, j)" for h j c
    by (simp add: Calendar_submit_def Inl)
  have "fst (Aggregator_loop_body H uri now s) \<noteq> None"
    using ne
    by (cases "make_merkle_tree H (objects s) (map fst (digest_queue s))")
       (auto simp: Aggregator_loop_body_def drain_all cal Let_def)
  with body show ?thesis by simp
qed

lemma loop_body_empty:
  "digest_queue s = [] \<Longrightarrow> Aggregator_loop_body H uri now s = (None, s)"
  by (simp add: Aggregator_loop_body_def)

lemma agg_inv_step:
  assumes H32: "\<forall>m. length (H m) = 32" and inv: "agg_inv H s"
  shows "agg_inv H (step H uri s a)"
proof (cases a)
  case (Submit m nonce_op)
  with agg_inv_submit [OF H32 inv] show ?thesis by simp
next
  case (Tick now)
  show ?thesis
  proof (cases "loop_alive s")
    case False
    with Tick inv show ?thesis by simp
  next
    case True
    obtain r s' where body: "Aggregator_loop_body H uri now s = (r, s')"
      by (cases "Aggregator_loop_body H uri now s")
    show ?thesis
    proof (cases r)
      case (Some e)
      with Tick True body show ?thesis by (simp add: agg_inv_dead)
    next
      case None
      show ?thesis
      proof (cases "digest_queue s = []")
        case True
        with loop_body_empty [OF True, of H uri now] inv Tick show ?thesis by simp
      next
        case False
        from tick_packs [OF H32 inv True False body [unfolded None]]
        obtain T where T: "struct_pack_L now = Inr T" by blast
        from tick_props [OF H32 inv True False T, of uri] body None
        have "agg_inv H s'" by auto
        with Tick True body None show ?thesis by simp
      qed
    qed
  qed
qed

lemma agg_inv_run:
  assumes H32: "\<forall>m. length (H m) = 32"
  shows "agg_inv H s \<Longrightarrow> agg_inv H (run H uri s as)"
  by (induction as arbitrary: s) (simp_all add: agg_inv_step [OF H32])

section \<open>Properties of \<open>Calendar.submit\<close>\<close>

lemma struct_pack_L_ok: "0 \<le> v \<Longrightarrow> v < 2 ^ 32 \<Longrightarrow> struct_pack_L v = Inr (be_uint32 v)"
  by (simp add: struct_pack_L_def)

lemma struct_pack_L_cases:
  "struct_pack_L v = Inr (be_uint32 v) \<or> struct_pack_L v = Inl StructError"
  by (simp add: struct_pack_L_def)

lemma Calendar_submit_journal:
  assumes wf: "wf_heap H h" and c: "c < length h"
    and t: "struct_pack_L now = Inr serialized_time"
  shows "\<exists>h'. Calendar_submit H uri now h j c =
           (fst (JournalWriter_submit j (serialized_time @ msg (h ! c))), h',
            snd (JournalWriter_submit j (serialized_time @ msg (h ! c))))"
proof -
  obtain h1 commitment where add: "OpSet_add H h c (OpPrepend serialized_time) = (h1, commitment)"
    by (cases "OpSet_add H h c (OpPrepend serialized_time)")
  note r = OpSet_add_result [OF wf c add]
  let ?h2 = "h1[commitment := (h1 ! commitment)
               \<lparr>attestations := insert (PendingAttestation uri) (attestations (h1 ! commitment))\<rparr>]"
  have "msg (?h2 ! commitment) = serialized_time @ msg (h ! c)"
    using r(1,2) by simp
  then show ?thesis
    using t add by (simp add: Calendar_submit_def Let_def split: prod.splits)
qed

lemma JournalWriter_submit_cases:
  "snd (JournalWriter_submit j r) = j \<or>
   length r = COMMITMENT_SIZE \<and>
   snd (JournalWriter_submit j r) = \<lparr>disk = disk j @ pending j @ r, pending = []\<rparr>"
  by (simp add: JournalWriter_submit_def fd_write_def fd_flush_def)

text \<open>
  C5, amended: whatever \<open>Calendar.submit\<close> writes to the journal is one 36-byte record
  made of the 4-byte big-endian submission time followed by the 32-byte commitment
  digest (the time is prepended); otherwise the call leaves the journal as it was. For
  a 32-byte digest and a time that fits 32 bits the write takes place, and for the first
  commitment \<open>C\<close> of an empty journal \<open>get 0\<close> returns the submission time followed
  by \<open>C\<close>.
\<close>

theorem Calendar_submit_record:
  assumes "wf_heap H h" and "c < length h"
  shows "(snd (snd (Calendar_submit H uri now h j c)) = j \<or>
          length (msg (h ! c)) = 32 \<and>
          snd (snd (Calendar_submit H uri now h j c)) =
            \<lparr>disk = disk j @ pending j @ (be_uint32 now @ msg (h ! c)), pending = []\<rparr>) \<and>
         (length (msg (h ! c)) = 32 \<and> 0 \<le> now \<and> now < 2 ^ 32 \<longrightarrow>
            fst (Calendar_submit H uri now h (journal_after file cs) c) = None \<and>
            snd (snd (Calendar_submit H uri now h (journal_after file cs) c)) =
              \<lparr>disk = disk (journal_after file cs) @ pending (journal_after file cs) @
                      (be_uint32 now @ msg (h ! c)),
               pending = []\<rparr> \<and>
            Journal_getitem
              (disk (snd (snd (Calendar_submit H uri now h (journal_after [] []) c)))) 0 =
              Inr (be_uint32 now @ msg (h ! c)))"
proof (intro conjI impI)
  let ?rec = "be_uint32 now @ msg (h ! c)"
  show "snd (snd (Calendar_submit H uri now h j c)) = j \<or>
        length (msg (h ! c)) = 32 \<and>
        snd (snd (Calendar_submit H uri now h j c)) =
          \<lparr>disk = disk j @ pending j @ ?rec, pending = []\<rparr>"
  proof (cases "struct_pack_L now = Inr (be_uint32 now)")
    case True
    from Calendar_submit_journal [OF assms True, of uri j]
    have j': "snd (snd (Calendar_submit H uri now h j c)) = snd (JournalWriter_submit j ?rec)"
      by auto
    have "length ?rec = COMMITMENT_SIZE \<Longrightarrow> length (msg (h ! c)) = 32"
      by (simp add: be_uint32_def COMMITMENT_SIZE_def)
    with JournalWriter_submit_cases [of j ?rec] show ?thesis
      unfolding j' by blast
  next
    case False
    with struct_pack_L_cases [of now] have "struct_pack_L now = Inl StructError" by simp
    then show ?thesis by (simp add: Calendar_submit_def)
  qed
next
  assume a: "length (msg (h ! c)) = 32 \<and> 0 \<le> now \<and> now < 2 ^ 32"
  let ?rec = "be_uint32 now @ msg (h ! c)"
  have len: "length ?rec = COMMITMENT_SIZE"
    using a by (simp add: be_uint32_def COMMITMENT_SIZE_def)
  have pack: "struct_pack_L now = Inr (be_uint32 now)"
    using a by (simp add: struct_pack_L_ok)
  have sub: "JournalWriter_submit (journal_after f es) ?rec =
          (None, \<lparr>disk = disk (journal_after f es) @ pending (journal_after f es) @ ?rec,
                  pending = []\<rparr>)" for f es
    by (rule submit_ok [OF len tell_journal_after_aligned])
  have res: "fst (Calendar_submit H uri now h (journal_after f es) c) = None \<and>
        snd (snd (Calendar_submit H uri now h (journal_after f es) c)) =
          \<lparr>disk = disk (journal_after f es) @ pending (journal_after f es) @ ?rec,
           pending = []\<rparr>" for f es
  proof -
    from Calendar_submit_journal [OF assms pack, of uri "journal_after f es"]
    obtain h' where "Calendar_submit H uri now h (journal_after f es) c =
        (None, h', \<lparr>disk = disk (journal_after f es) @ pending (journal_after f es) @ ?rec,
                    pending = []\<rparr>)"
      unfolding sub fst_conv snd_conv by blast
    then show ?thesis by simp
  qed
  from res [of "file" "cs"]
  show "fst (Calendar_submit H uri now h (journal_after file cs) c) = None" by simp
  from res [of "file" "cs"]
  show "snd (snd (Calendar_submit H uri now h (journal_after file cs) c)) =
          \<lparr>disk = disk (journal_after file cs) @ pending (journal_after file cs) @ ?rec,
           pending = []\<rparr>" by simp
  have empty: "journal_after [] [] = \<lparr>disk = [], pending = []\<rparr>"
    by (simp add: journal_after_def JournalWriter_init_def fd_tell_def Let_def)
  from res [of "[]" "[]"]
  have "disk (snd (snd (Calendar_submit H uri now h (journal_after [] []) c))) = ?rec"
    by (simp add: empty)
  moreover have "Journal_getitem ([] @ ?rec @ []) (int 0) = Inr ?rec"
    by (rule getitem_block [OF len]) simp
  ultimately show "Journal_getitem
      (disk (snd (snd (Calendar_submit H uri now h (journal_after [] []) c)))) 0 = Inr ?rec"
    by simp
qed

theorem Calendar_submit_record_witness:
  "wf_heap id [\<lparr>msg = replicate 32 170, attestations = {}, ops = []\<rparr>] \<and>
   (0 :: nat) < length [\<lparr>msg = replicate 32 170, attestations = {}, ops = []\<rparr>] \<and>
   length (msg ([\<lparr>msg = replicate 32 170, attestations = {}, ops = []\<rparr>] ! 0)) = 32 \<and>
   (0 :: int) \<le> 258 \<and> (258 :: int) < 2 ^ 32 \<and>
   Journal_getitem
     (disk (snd (snd (Calendar_submit id [85] 258
                        [\<lparr>msg = replicate 32 170, attestations = {}, ops = []\<rparr>]
                        (journal_after [] []) 0)))) 0
     = Inr ([0, 0, 1, 2] @ replicate 32 170)"
proof -
  have wf: "wf_heap id [\<lparr>msg = replicate 32 170, attestations = {}, ops = []\<rparr>]"
    by (simp add: wf_heap_def)
  have t: "be_uint32 258 = [0, 0, 1, 2]"
    by (simp add: be_uint32_def)
  let ?h = "[\<lparr>msg = replicate 32 170, attestations = {}, ops = []\<rparr>]"
  have pre: "length (msg (?h ! 0)) = 32 \<and> (0 :: int) \<le> 258 \<and> (258 :: int) < 2 ^ 32"
    by simp
  from Calendar_submit_record [OF wf, of 0 "[85]" 258 "journal_after [] []" "[]" "[]"]
  have "length (msg (?h ! 0)) = 32 \<and> (0 :: int) \<le> 258 \<and> (258 :: int) < 2 ^ 32 \<longrightarrow>
        fst (Calendar_submit id [85] 258 ?h (journal_after [] []) 0) = None \<and>
        snd (snd (Calendar_submit id [85] 258 ?h (journal_after [] []) 0)) =
          \<lparr>disk = disk (journal_after [] []) @ pending (journal_after [] []) @
                  (be_uint32 258 @ msg (?h ! 0)),
           pending = []\<rparr> \<and>
        Journal_getitem (disk (snd (snd (Calendar_submit id [85] 258 ?h (journal_after [] []) 0)))) 0 =
          Inr (be_uint32 258 @ msg (?h ! 0))"
    by (simp only: length_Cons list.size lessI) blast
  with pre have "Journal_getitem
      (disk (snd (snd (Calendar_submit id [85] 258 ?h (journal_after [] []) 0)))) 0 =
        Inr (be_uint32 258 @ msg (?h ! 0))"
    by blast
  then have "Journal_getitem
      (disk (snd (snd (Calendar_submit id [85] 258 ?h (journal_after [] []) 0)))) 0 =
        Inr ([0, 0, 1, 2] @ replicate 32 170)"
    unfolding t by simp
  with wf pre show ?thesis by simp
qed

text \<open>
  C5 as stated fails: the digest does not come first. With the digest \<open>0xAA\<close> repeated
  and the clock at 1, the record is \<open>00 00 00 01\<close> followed by the digest.
\<close>

theorem Calendar_submit_layout_counterexample:
  "snd (snd (Calendar_submit id [85] 1 [\<lparr>msg = replicate 32 170, attestations = {}, ops = []\<rparr>]
               (JournalWriter_init []) 0))
     = \<lparr>disk = [0, 0, 0, 1] @ replicate 32 170, pending = []\<rparr> \<and>
   Journal_getitem
     (disk (snd (snd (Calendar_submit id [85] 1
                        [\<lparr>msg = replicate 32 170, attestations = {}, ops = []\<rparr>]
                        (JournalWriter_init []) 0)))) 0
     \<noteq> Inr (replicate 32 170 @ [0, 0, 0, 1])"
  by code_simp

section \<open>Properties of the calendar's lookup\<close>

lemma lookup_loop_entries:
  assumes "distinct (map fst dir)"
  shows "set entries \<subseteq> set dir \<Longrightarrow>
         lookup_loop D c dir (map fst entries) nv ys =
           (if nv \<and> List.map_filter (\<lambda>(n, content). D content c) entries = []
            then Some KeyError else None,
            ys @ List.map_filter (\<lambda>(n, content). D content c) entries)"
proof (induction entries arbitrary: nv ys)
  case Nil
  then show ?case by (simp add: List.map_filter_simps)
next
  case (Cons e entries)
  obtain n content where e: "e = (n, content)" by (cases e)
  with Cons.prems have "(n, content) \<in> set dir" by simp
  with assms have m: "map_of dir n = Some content" by simp
  from Cons.prems have sub: "set entries \<subseteq> set dir" by simp
  show ?case
  proof (cases "D content c")
    case None
    with Cons.IH [OF sub, of nv ys] show ?thesis
      by (simp add: e m List.map_filter_simps)
  next
    case (Some t)
    with Cons.IH [OF sub, of False "ys @ [t]"] show ?thesis
      by (simp add: e m List.map_filter_simps)
  qed
qed

lemma map_fst_sort_key: "map fst (sort_key fst dir) = sort (map fst dir)"
  by (rule properties_for_sort [symmetric]) simp_all

lemma map_filter_empty_iff:
  "List.map_filter f xs = [] \<longleftrightarrow> (\<forall>x \<in> set xs. f x = None)"
  by (induction xs) (auto simp: List.map_filter_simps split: option.splits)

text \<open>
  C7: a lookup yields the stored proofs that deserialize, in the order of their file
  names, and skips every file that does not; it ends in \<open>KeyError\<close> exactly when the
  commitment's directory is absent, or is empty, or holds only files that fail to
  deserialize (an empty directory is the case of no file at all), and then it has
  yielded nothing. (File names within a directory are distinct.)
\<close>

theorem lookup_skips_corrupt:
  assumes "case fs (path c) of None \<Rightarrow> True | Some dir \<Rightarrow> distinct (map fst dir)"
  shows "Calendar_getitem path D fs c =
           (case fs (path c) of
              None \<Rightarrow> (Some KeyError, [])
            | Some dir \<Rightarrow>
                if \<forall>(n, content) \<in> set dir. D content c = None then (Some KeyError, [])
                else (None, List.map_filter (\<lambda>(n, content). D content c) (sort_key fst dir)))"
proof (cases "fs (path c)")
  case None
  then show ?thesis by (simp add: Calendar_getitem_def)
next
  case (Some dir)
  with assms have d: "distinct (map fst dir)" by simp
  let ?f = "\<lambda>(n :: string, content). D content c"
  have loop: "lookup_loop D c dir (sort (map fst dir)) True [] =
        (if List.map_filter ?f (sort_key fst dir) = [] then Some KeyError else None,
         List.map_filter ?f (sort_key fst dir))"
    using lookup_loop_entries [OF d, of "sort_key fst dir" D c True "[]"]
    by (simp add: map_fst_sort_key)
  have none: "List.map_filter ?f (sort_key fst dir) = [] \<longleftrightarrow>
        (\<forall>(n, content) \<in> set dir. D content c = None)"
    by (auto simp: map_filter_empty_iff)
  show ?thesis
  proof (cases "dir = []")
    case True
    with Some show ?thesis by (simp add: Calendar_getitem_def)
  next
    case False
    with Some loop none show ?thesis
      by (simp add: Calendar_getitem_def Let_def)
  qed
qed

text \<open>
  One corrupt and one valid file: the lookup yields the valid proof and no error.
\<close>

theorem lookup_skips_corrupt_witness:
  "distinct (map fst [(''btcblk-0000002-aa'', [1 :: byte, 2]), (''btcblk-0000001-bb'', [])]) \<and>
   Calendar_getitem (\<lambda>c. ''cal/07'')
     (\<lambda>content commitment. if content = [] then None else Some (Stamp commitment {||} {||}))
     (\<lambda>p. if p = ''cal/07'' then Some [(''btcblk-0000002-aa'', [1, 2]), (''btcblk-0000001-bb'', [])]
          else None) [7]
     = (None, [Stamp [7] {||} {||}])"
proof -
  let ?fs = "\<lambda>p. if p = ''cal/07'' then Some [(''btcblk-0000002-aa'', [1 :: byte, 2]), (''btcblk-0000001-bb'', [])]
          else None"
  have d: "case ?fs ((\<lambda>c :: bytes. ''cal/07'') [7]) of
             None \<Rightarrow> True | Some dir \<Rightarrow> distinct (map fst dir)"
    by simp
  from lookup_skips_corrupt [of ?fs "\<lambda>c. ''cal/07''" "[7]"
      "\<lambda>content commitment. if content = [] then None else Some (Stamp commitment {||} {||})", OF d]
  show ?thesis
    by (simp add: List.map_filter_simps)
qed

section \<open>Properties of the aggregator\<close>

text \<open>
  C9: when the queue is empty at a tick, the turn of the loop ends without an exception
  and leaves everything as it was: no timestamp object, no event and no byte of the
  journal (on disk or pending) changes.
\<close>

theorem empty_queue_tick:
  "digest_queue s = [] \<Longrightarrow>
   Aggregator_loop_body H uri now s = (None, s) \<and> step H uri s (Tick now) = s"
  by (simp add: Aggregator_loop_body_def)

theorem empty_queue_tick_witness:
  "digest_queue (Aggregator_init [1, 2, 3]) = [] \<and>
   Aggregator_loop_body id [85] 7 (Aggregator_init [1, 2, 3]) = (None, Aggregator_init [1, 2, 3]) \<and>
   step id [85] (Aggregator_init [1, 2, 3]) (Tick 7) = Aggregator_init [1, 2, 3]"
  using empty_queue_tick [of "Aggregator_init [1, 2, 3]" id "[85]" 7]
  by (simp add: Aggregator_init_def)

lemma returned_iff:
  "c \<in> set (returned s) \<longleftrightarrow> (\<exists>e. (c, e) \<in> set (waiting s) \<and> events s ! e)"
  by (force simp: returned_def)

text \<open>
  C3: take any aggregator state reached from \<open>__init__\<close> by submissions and ticks,
  with the loop thread alive, and any two callers still blocked in \<open>submit\<close> (their
  events are not set: they submitted in the current interval). When the clock reads a
  time that fits 32 bits and the hash gives 32 bytes, the next turn of the loop ends
  without an exception, sets both events, so that both callers return their timestamps,
  and leaves these two timestamps with a chain of operations to one and the same object
  \<open>tip\<close>; applied to each caller's own message, the chain yields the message of
  \<open>tip\<close>, the 32-byte commitment digest. The turn appends exactly one record to the
  journal, and it holds that digest (behind the 4-byte time).
\<close>

theorem same_interval_same_commitment:
  assumes H32: "\<forall>m. length (H m) = 32"
    and s: "s = run H uri (Aggregator_init file) acts"
    and alive: "loop_alive s"
    and w1: "(t1, e1) \<in> set (waiting s)" and u1: "\<not> events s ! e1"
    and w2: "(t2, e2) \<in> set (waiting s)" and u2: "\<not> events s ! e2"
    and now: "0 \<le> now" "now < 2 ^ 32"
  shows "\<exists>s' tip path1 path2.
           Aggregator_loop_body H uri now s = (None, s') \<and>
           t1 \<in> set (returned s') \<and> t2 \<in> set (returned s') \<and>
           follow (objects s') t1 path1 = Some tip \<and>
           follow (objects s') t2 path2 = Some tip \<and>
           apply_ops H path1 (msg (objects s ! t1)) = msg (objects s' ! tip) \<and>
           apply_ops H path2 (msg (objects s ! t2)) = msg (objects s' ! tip) \<and>
           length (msg (objects s' ! tip)) = 32 \<and>
           journal s' =
             \<lparr>disk = disk (journal s) @ pending (journal s) @
                     (be_uint32 now @ msg (objects s' ! tip)),
              pending = []\<rparr>"
proof -
  let ?T = "be_uint32 now"
  have inv: "agg_inv H s"
    unfolding s by (rule agg_inv_run [OF H32 agg_inv_init])
  have T: "struct_pack_L now = Inr ?T"
    using now by (rule struct_pack_L_ok)
  from inv alive w1 u1 have ne: "digest_queue s \<noteq> []"
    unfolding agg_inv_def by fastforce
  from inv alive w1 w2 have l1: "t1 < length (objects s)" and l2: "t2 < length (objects s)"
    unfolding agg_inv_def by blast+
  from tick_props [OF H32 inv alive ne T, of uri]
  obtain s' tip where body: "Aggregator_loop_body H uri now s = (None, s')"
    and J: "journal s' = \<lparr>disk = disk (journal s) @ pending (journal s) @
                                  (?T @ msg (objects s' ! tip)), pending = []\<rparr>"
    and m32: "length (msg (objects s' ! tip)) = 32"
    and wf': "wf_heap H (objects s')" and ws: "waiting s' = waiting s"
    and served: "\<forall>(c, e) \<in> set (waiting s). \<not> events s ! e \<longrightarrow>
              events s' ! e \<and> (\<exists>path. follow (objects s') c path = Some tip)"
    by blast
  from served w1 u1 obtain p1 where ev1: "events s' ! e1"
    and f1: "follow (objects s') t1 p1 = Some tip" by blast
  from served w2 u2 obtain p2 where ev2: "events s' ! e2"
    and f2: "follow (objects s') t2 p2 = Some tip" by blast
  from msgs_kept_loop_body [OF body]
  have len: "length (objects s) \<le> length (objects s')"
    and m1: "msg (objects s' ! t1) = msg (objects s ! t1)"
    and m2: "msg (objects s' ! t2) = msg (objects s ! t2)"
    using l1 l2 by (simp_all add: msgs_kept_def)
  from follow_msg [OF wf' _ f1] l1 len m1
  have a1: "apply_ops H p1 (msg (objects s ! t1)) = msg (objects s' ! tip)" by simp
  from follow_msg [OF wf' _ f2] l2 len m2
  have a2: "apply_ops H p2 (msg (objects s ! t2)) = msg (objects s' ! tip)" by simp
  from w1 ev1 ws have r1: "t1 \<in> set (returned s')"
    unfolding returned_iff by auto
  from w2 ev2 ws have r2: "t2 \<in> set (returned s')"
    unfolding returned_iff by auto
  from body r1 r2 f1 f2 a1 a2 m32 J show ?thesis by blast
qed

text \<open>
  C10: \<open>Aggregator.submit m\<close> creates its timestamp for \<open>m\<close> itself and keeps it as
  the value to return: its message is \<open>m\<close> when the caller starts to wait and after
  anything that happens later. What goes on the queue is another object, the hash of the
  nonce operation's result, two operations below that root. (The library refuses
  messages longer than 4096 bytes; digests are far shorter and the limit is not
  modelled.)
\<close>

theorem submit_rooted_at_msg:
  "waiting (Aggregator_submit H nonce_op s m) =
     waiting s @ [(length (objects s), length (events s))] \<and>
   digest_queue (Aggregator_submit H nonce_op s m) =
     digest_queue s @ [(length (objects s) + 2, length (events s))] \<and>
   msg (objects (Aggregator_submit H nonce_op s m) ! length (objects s)) = m \<and>
   ops (objects (Aggregator_submit H nonce_op s m) ! length (objects s)) =
     [(nonce_op, length (objects s) + 1)] \<and>
   ops (objects (Aggregator_submit H nonce_op s m) ! (length (objects s) + 1)) =
     [(OpSHA256, length (objects s) + 2)] \<and>
   msg (objects (Aggregator_submit H nonce_op s m) ! (length (objects s) + 2)) =
     H (Op_call H nonce_op m) \<and>
   (\<forall>acts. msg (objects (run H uri (Aggregator_submit H nonce_op s m) acts) ! length (objects s))
            = m)"
proof -
  let ?s1 = "Aggregator_submit H nonce_op s m"
  let ?n = "length (objects s)"
  have now: "msg (objects ?s1 ! ?n) = m" and len: "?n < length (objects ?s1)"
    by (simp_all add: Aggregator_submit_shape nth_append)
  have later: "msg (objects (run H uri ?s1 acts) ! ?n) = m" for acts
    using msgs_kept_run [of ?s1 H uri acts] len now by (simp add: msgs_kept_def)
  show ?thesis
    using later by (simp add: Aggregator_submit_shape nth_append)
qed


theorem same_interval_same_commitment_witness:
  "(\<forall>m :: bytes. length (take 32 (m @ replicate 32 0)) = 32) \<and>
   loop_alive (run (\<lambda>m. take 32 (m @ replicate 32 0)) [85] (Aggregator_init [])
                 [Submit (replicate 32 1) (OpAppend [9]), Submit (replicate 32 2) (OpAppend [8])]) \<and>
   (0, 0) \<in> set (waiting (run (\<lambda>m. take 32 (m @ replicate 32 0)) [85] (Aggregator_init [])
                 [Submit (replicate 32 1) (OpAppend [9]), Submit (replicate 32 2) (OpAppend [8])])) \<and>
   (3, 1) \<in> set (waiting (run (\<lambda>m. take 32 (m @ replicate 32 0)) [85] (Aggregator_init [])
                 [Submit (replicate 32 1) (OpAppend [9]), Submit (replicate 32 2) (OpAppend [8])])) \<and>
   (\<exists>s' tip path1 path2.
      Aggregator_loop_body (\<lambda>m. take 32 (m @ replicate 32 0)) [85] 5
        (run (\<lambda>m. take 32 (m @ replicate 32 0)) [85] (Aggregator_init [])
           [Submit (replicate 32 1) (OpAppend [9]), Submit (replicate 32 2) (OpAppend [8])])
        = (None, s') \<and>
      0 \<in> set (returned s') \<and> 3 \<in> set (returned s') \<and>
      follow (objects s') 0 path1 = Some tip \<and>
      follow (objects s') 3 path2 = Some tip \<and>
      apply_ops (\<lambda>m. take 32 (m @ replicate 32 0)) path1 (replicate 32 1) = msg (objects s' ! tip) \<and>
      apply_ops (\<lambda>m. take 32 (m @ replicate 32 0)) path2 (replicate 32 2) = msg (objects s' ! tip) \<and>
      journal s' = \<lparr>disk = [0, 0, 0, 5] @ msg (objects s' ! tip), pending = []\<rparr>)"
proof -
  let ?H = "\<lambda>m :: bytes. take 32 (m @ replicate 32 0)"
  let ?s = "run ?H [85] (Aggregator_init [])
              [Submit (replicate 32 1) (OpAppend [9]), Submit (replicate 32 2) (OpAppend [8])]"
  have H32: "\<forall>m. length (?H m) = 32" by auto
  have alive: "loop_alive ?s" by code_simp
  have w1: "(0, 0) \<in> set (waiting ?s)" and w2: "(3, 1) \<in> set (waiting ?s)" by code_simp+
  have u1: "\<not> events ?s ! 0" and u2: "\<not> events ?s ! 1" by code_simp+
  have m1: "msg (objects ?s ! 0) = replicate 32 1" and m2: "msg (objects ?s ! 3) = replicate 32 2"
    by code_simp+
  have j: "disk (journal ?s) = []" "pending (journal ?s) = []" by code_simp+
  from same_interval_same_commitment [OF H32 refl alive w1 u1 w2 u2, of 5]
  obtain s' tip path1 path2 where body: "Aggregator_loop_body ?H [85] 5 ?s = (None, s')"
    and ev: "0 \<in> set (returned s')" "3 \<in> set (returned s')"
    and f: "follow (objects s') 0 path1 = Some tip" "follow (objects s') 3 path2 = Some tip"
    and a: "apply_ops ?H path1 (msg (objects ?s ! 0)) = msg (objects s' ! tip)"
      "apply_ops ?H path2 (msg (objects ?s ! 3)) = msg (objects s' ! tip)"
    and J: "journal s' =
             \<lparr>disk = disk (journal ?s) @ pending (journal ?s) @
                     (be_uint32 5 @ msg (objects s' ! tip)),
              pending = []\<rparr>"
    by auto
  have J': "journal s' = \<lparr>disk = [0, 0, 0, 5] @ msg (objects s' ! tip), pending = []\<rparr>"
    using J unfolding j by (simp add: be_uint32_def)
  note a' = a [unfolded m1 m2]
  show ?thesis
    by (intro conjI exI) (rule H32 alive w1 w2 body ev f a' J')+
qed

theorem submit_rooted_at_msg_witness:
  "msg (objects (Aggregator_submit id (OpAppend [9]) (Aggregator_init []) [1, 2, 3]) ! 0) = [1, 2, 3] \<and>
   ops (objects (Aggregator_submit id (OpAppend [9]) (Aggregator_init []) [1, 2, 3]) ! 0) =
     [(OpAppend [9], 1)] \<and>
   digest_queue (Aggregator_submit id (OpAppend [9]) (Aggregator_init []) [1, 2, 3]) = [(2, 0)] \<and>
   msg (objects (Aggregator_submit id (OpAppend [9]) (Aggregator_init []) [1, 2, 3]) ! 2) =
     [1, 2, 3, 9] \<and>
   msg (objects (run id [85] (Aggregator_submit id (OpAppend [9]) (Aggregator_init []) [1, 2, 3])
                   [Tick 5]) ! 0) = [1, 2, 3]"
proof -
  let ?s1 = "Aggregator_submit id (OpAppend [9]) (Aggregator_init []) [1, 2, 3]"
  note t = submit_rooted_at_msg [of id "OpAppend [9]" "Aggregator_init []" "[1, 2, 3]" "[85]"]
  have e: "length (objects (Aggregator_init [])) = 0" "length (events (Aggregator_init [])) = 0"
    "digest_queue (Aggregator_init []) = []"
    by (simp_all add: Aggregator_init_def)
  from t have "\<forall>acts. msg (objects (run id [85] ?s1 acts) ! length (objects (Aggregator_init [])))
                 = [1, 2, 3]"
    by blast
  then have later: "msg (objects (run id [85] ?s1 [Tick 5]) ! 0) = [1, 2, 3]"
    unfolding e by (rule spec)
  from t have first: "msg (objects ?s1 ! 0) = [1, 2, 3] \<and>
      ops (objects ?s1 ! 0) = [(OpAppend [9], 1)] \<and>
      digest_queue ?s1 = [(2, 0)] \<and> msg (objects ?s1 ! 2) = [1, 2, 3, 9]"
    unfolding e by (simp add: numeral_2_eq_2)
  from first later show ?thesis by blast
qed

section \<open>Properties of the keyed timestamp store\<close>

text \<open>
  Whatever \<open>__add_timestamp\<close> collects goes into a batch that \<open>add\<close> does not
  write: \<open>add\<close> leaves the store as it found it, whether it raises or not, and
  whatever the missing part of \<open>__add_timestamp\<close> does with its batch.
\<close>

lemma add_keeps_store: "snd (LevelDbCalendar_add decode rest db new_timestamp) = db"
  by (simp add: LevelDbCalendar_add_def db_Write_def split: sum.splits)



text \<open>
  C1 fails on the code. On an empty store, \<open>A\<close> is the timestamp of the message
  \<open>07\<close> with the operation "append \<open>01\<close>" and \<open>B\<close> the timestamp of the same
  message with the operation "prepend \<open>02\<close>". After \<open>add A\<close> and \<open>add B\<close> the store
  is still empty: nothing is stored for \<open>07\<close>, let alone both branches.
\<close>

theorem add_stores_no_union:
  "snd (LevelDbCalendar_add decode rest
          (snd (LevelDbCalendar_add decode rest Map.empty
                  (Stamp [7] {||} {|(OpAppend [1], Stamp [7, 1] {||} {||})|})))
          (Stamp [7] {||} {|(OpPrepend [2], Stamp [2, 7] {||} {||})|}))
     = Map.empty"
  by (simp add: add_keeps_store)

end
